theory Spec2Isabelle
  imports Main "HOL-Library.Word"
begin

section \<open>tinysid.h: bytes, the C library and the platform\<close>

text \<open>
  A C \<open>char\<close> is a byte: the HOL type \<open>char\<close>, and a buffer is a \<open>string\<close>. A pointer into
  a buffer is the suffix of the buffer that starts where it points: \<open>*p\<close> is the head,
  \<open>p + k\<close> is \<open>drop k\<close>, and the difference of two pointers into one buffer is the
  difference of the lengths. The input buffer of \<open>tsPreprocess\<close> holds the bytes of the
  file and one terminating NUL; a read from the empty suffix is a read behind that
  buffer, which is undefined in C and a fault here.

  The output buffer is stored to front to back only and never read before the final
  \<open>fwrite\<close>, so it is the list of the bytes below the write cursor: the cursor is the
  length of that list. The block behind it has the \<open>size * 2\<close> bytes asked of \<open>malloc\<close>
  (\<open>cap\<close>). A store behind the block is undefined in C as well, and a fault here:
  \<open>OutputOverrun reach cap\<close> tells how many bytes from the start of the block the store
  needs and how many the block has. \<open>fwrite\<close> on the null stream that a failed \<open>fopen\<close>
  returns is the third fault.

  Sizes are natural numbers: the \<open>int\<close> arithmetic of \<open>size * 2\<close> and \<open>19 + bytes\<close> is
  taken not to overflow (files below \<open>2 ^ 30\<close> bytes). \<open>unsigned\<close> has 32 bits.
\<close>

datatype fault = InputOverrun | OutputOverrun nat nat | NullStream

definition NUL :: char where
  "NUL = CHR 0x00"

definition dquote :: char where
  "dquote = CHR 0x22"

definition bslash :: char where
  "bslash = CHR 0x5C"

text \<open>
  \<open>isspace\<close> and \<open>isalnum\<close> of \<open>ctype.h\<close> in the C locale: space, \<open>\t \n \v \f \r\<close>, and the
  ASCII digits and letters. No byte from \<open>0x80\<close> up is in either class, and NUL is in
  neither.
\<close>

definition isspace :: "char \<Rightarrow> bool" where
  "isspace c = (c \<in> set [CHR 0x20, CHR 0x09, CHR 0x0A, CHR 0x0B, CHR 0x0C, CHR 0x0D])"

definition isalnum :: "char \<Rightarrow> bool" where
  "isalnum c = (let n = (of_char c :: nat) in
      (48 \<le> n \<and> n \<le> 57) \<or> (65 \<le> n \<and> n \<le> 90) \<or> (97 \<le> n \<and> n \<le> 122))"

text \<open>
  \<open>c = *str\<close> reads a plain \<open>char\<close> into an \<open>int\<close>, and \<open>h + c\<close> converts that \<open>int\<close> to
  \<open>unsigned\<close>. Whether plain \<open>char\<close> is signed is the platform's choice (it is on x86
  with gcc, clang and MSVC; it is not on ARM Linux), so it is a parameter: where it is
  signed, a byte from \<open>0x80\<close> up is the negative number \<open>byte - 256\<close>.
\<close>

definition char_to_unsigned :: "bool \<Rightarrow> char \<Rightarrow> 32 word" where
  "char_to_unsigned char_signed c =
     (if char_signed \<and> (128::nat) \<le> of_char c then of_char c - 256 else of_char c)"

section \<open>djb2 and the SID macro\<close>

text \<open>The loop of \<open>djb2\<close> over the bytes of \<open>[str, end)\<close>, \<open>h\<close> being the accumulator.\<close>

fun djb2_loop :: "bool \<Rightarrow> 32 word \<Rightarrow> string \<Rightarrow> 32 word" where
  "djb2_loop char_signed h [] = h"
| "djb2_loop char_signed h (c # str) =
     djb2_loop char_signed ((push_bit 5 h + h) + char_to_unsigned char_signed c) str"

definition djb2 :: "bool \<Rightarrow> string \<Rightarrow> 32 word" where
  "djb2 char_signed str = djb2_loop char_signed 5381 str"

text \<open>
  \<open>strlen\<close> on the memory that starts at \<open>str\<close>: the number of bytes before the first NUL;
  without a NUL it runs off the buffer.
\<close>

definition strlen :: "string \<Rightarrow> fault + nat" where
  "strlen str = (if NUL \<in> set str then Inr (length (takeWhile (\<lambda>c. c \<noteq> NUL) str))
                 else Inl InputOverrun)"

text \<open>\<open>#define SID( str ) djb2( str, str + strlen( str ) )\<close>\<close>

definition SID :: "bool \<Rightarrow> string \<Rightarrow> fault + 32 word" where
  "SID char_signed str =
     (case strlen str of
        Inl e \<Rightarrow> Inl e
      | Inr n \<Rightarrow> Inr (djb2 char_signed (take n str)))"

section \<open>The scanner\<close>

text \<open>\<open>while ( isspace( *data ) ) *out++ = *data++;\<close>\<close>

fun tsSkipWhite_internal :: "string \<Rightarrow> string \<Rightarrow> fault + string \<times> string" where
  "tsSkipWhite_internal [] out = Inl InputOverrun"
| "tsSkipWhite_internal (c # data) out =
     (if isspace c then tsSkipWhite_internal data (out @ [c])
      else Inr (c # data, out))"

text \<open>\<open>while ( isalnum( *data ) ) *out++ = *data++;\<close> (lines 130 and 131).\<close>

fun tsCopyAlnum :: "string \<Rightarrow> string \<Rightarrow> fault + string \<times> string" where
  "tsCopyAlnum [] out = Inl InputOverrun"
| "tsCopyAlnum (c # data) out =
     (if isalnum c then tsCopyAlnum data (out @ [c])
      else Inr (c # data, out))"

text \<open>
  The inner loop of \<open>tsNext_internal\<close> (lines 101 to 123) on the rest of \<open>match\<close>: it
  ends with every byte of \<open>match\<close> found, at a byte that differs, or at the NUL, where
  the function returns 0 at once with \<open>data\<close> left where the loop stopped.
\<close>

datatype match_end = Matched | Mismatch | EndOfInput string

fun tsMatch :: "string \<Rightarrow> string \<Rightarrow> fault + match_end" where
  "tsMatch data [] = Inr Matched"
| "tsMatch [] (m # match) = Inl InputOverrun"
| "tsMatch (c # data) (m # match) =
     (if c = NUL then Inr (EndOfInput (c # data))
      else if c = m then tsMatch data match
      else Inr Mismatch)"

text \<open>
  One round of the \<open>while ( 1 )\<close> of \<open>tsNext_internal\<close> (lines 78 to 131): the round either
  leaves the function (\<open>goto return_result\<close>, or \<open>break\<close> on a match, where \<open>data\<close> is back
  at the \<open>S\<close>) or goes round again (\<open>continue\<close>, or the end of the body).
\<close>

datatype round = Return bool string string | Again string string

definition tsNext_round :: "string \<Rightarrow> string \<Rightarrow> fault + round" where
  "tsNext_round data out =
     (case data of
        [] \<Rightarrow> Inl InputOverrun
      | c # _ \<Rightarrow>
          if c = NUL then Inr (Return False data out)
          else
            (case tsSkipWhite_internal data out of
               Inl e \<Rightarrow> Inl e
             | Inr (data1, out1) \<Rightarrow>
                 (case data1 of
                    [] \<Rightarrow> Inl InputOverrun
                  | c1 # rest1 \<Rightarrow>
                      if c1 = NUL then Inr (Return False data1 out1)
                      else if \<not> isalnum c1 then Inr (Again rest1 (out1 @ [c1]))
                      else
                        (case tsMatch data1 ''SID('' of
                           Inl e \<Rightarrow> Inl e
                         | Inr (EndOfInput data2) \<Rightarrow> Inr (Return False data2 out1)
                         | Inr Matched \<Rightarrow> Inr (Return True data1 out1)
                         | Inr Mismatch \<Rightarrow>
                             (case tsCopyAlnum data1 out1 of
                                Inl e \<Rightarrow> Inl e
                              | Inr (data2, out2) \<Rightarrow> Inr (Again data2 out2))))))"

lemma tsSkipWhite_internal_length:
  "tsSkipWhite_internal data out = Inr (data', out') \<Longrightarrow> length data' \<le> length data"
  by (induction data out rule: tsSkipWhite_internal.induct) (auto split: if_splits)

lemma tsCopyAlnum_length:
  "tsCopyAlnum data out = Inr (data', out') \<Longrightarrow> length data' \<le> length data"
  by (induction data out rule: tsCopyAlnum.induct) (auto split: if_splits)

lemma tsNext_round_progress:
  assumes "tsNext_round data out = Inr (Again data' out')"
  shows "length data' < length data"
proof -
  from assms obtain data1 out1 c1 rest1 where
    skip: "tsSkipWhite_internal data out = Inr (data1, out1)" and
    d1: "data1 = c1 # rest1" and
    rest: "(\<not> isalnum c1 \<and> data' = rest1) \<or>
           (isalnum c1 \<and> tsCopyAlnum data1 out1 = Inr (data', out'))"
    by (auto simp: tsNext_round_def
        split: list.splits if_splits sum.splits prod.splits match_end.splits)
  have le: "length data1 \<le> length data"
    using skip by (rule tsSkipWhite_internal_length)
  from rest show ?thesis
  proof
    assume "\<not> isalnum c1 \<and> data' = rest1"
    with le d1 show ?thesis by simp
  next
    assume a: "isalnum c1 \<and> tsCopyAlnum data1 out1 = Inr (data', out')"
    then have "length data' \<le> length rest1"
      using d1 by (auto split: if_splits dest: tsCopyAlnum_length)
    with le d1 show ?thesis by simp
  qed
qed

text \<open>
  \<open>tsNext_internal\<close>: the result is the returned \<open>int\<close> (as a truth value) with the two
  cursors it stores back.
\<close>

function tsNext_internal :: "string \<Rightarrow> string \<Rightarrow> fault + bool \<times> string \<times> string" where
  "tsNext_internal data out =
     (case tsNext_round data out of
        Inl e \<Rightarrow> Inl e
      | Inr (Return result data' out') \<Rightarrow> Inr (result, data', out')
      | Inr (Again data' out') \<Rightarrow> tsNext_internal data' out')"
  by pat_completeness auto
termination
  by (relation "measure (\<lambda>(data, out). length data)")
    (auto dest: tsNext_round_progress)

declare tsNext_internal.simps [simp del]

section \<open>One invocation\<close>

text \<open>\<open>while ( isspace( *data ) ) data++;\<close> (lines 174, 175 and 207, 208).\<close>

fun tsSkipInside :: "string \<Rightarrow> fault + string" where
  "tsSkipInside [] = Inl InputOverrun"
| "tsSkipInside (c # data) = (if isspace c then tsSkipInside data else Inr (c # data))"

text \<open>
  The loop of lines 187 to 199 on \<open>ptr\<close>: a backslash moves \<open>ptr\<close> by two, a double quote
  ends the loop, any other byte (the NUL too) moves \<open>ptr\<close> by one. The result is \<open>ptr\<close>
  at the quote.
\<close>

fun tsFindQuote :: "string \<Rightarrow> fault + string" where
  "tsFindQuote [] = Inl InputOverrun"
| "tsFindQuote (c # ptr) =
     (if c = bslash then
        (case ptr of [] \<Rightarrow> Inl InputOverrun | e # ptr' \<Rightarrow> tsFindQuote ptr')
      else if c = dquote then Inr (c # ptr)
      else tsFindQuote ptr)"

text \<open>\<open>%.8x\<close> of an \<open>unsigned\<close>: eight lowercase hexadecimal digits.\<close>

definition hexdigit :: "32 word \<Rightarrow> char" where
  "hexdigit d = ''0123456789abcdef'' ! unat (take_bit 4 d)"

definition hex8 :: "32 word \<Rightarrow> string" where
  "hex8 h = map (\<lambda>i. hexdigit (drop_bit (4 * i) h)) [7, 6, 5, 4, 3, 2, 1, 0]"

text \<open>
  The characters \<open>sprintf\<close> produces for the format of line 203. \<open>%.*s\<close> with the
  precision \<open>bytes\<close> prints the bytes at \<open>data\<close> up to \<open>bytes\<close> of them and stops before a
  NUL.
\<close>

definition tsFormat :: "32 word \<Rightarrow> nat \<Rightarrow> string \<Rightarrow> string" where
  "tsFormat h bytes data =
     ''0x'' @ hex8 h @ '' /* '' @ [dquote] @
     takeWhile (\<lambda>c. c \<noteq> NUL) (take bytes data) @ [dquote] @ '' */''"

text \<open>
  Lines 203 and 204 on the output buffer of \<open>cap\<close> bytes. \<open>sprintf\<close> stores its
  characters and a NUL behind them at \<open>out\<close>: that is a fault unless all of them lie
  inside the block. Then the cursor moves by \<open>19 + bytes\<close>, which must not take it
  behind the end of the block. Where \<open>sprintf\<close> stopped at a NUL of the literal, the
  cursor moves over the terminating NUL and then over bytes nothing has stored to
  since \<open>malloc\<close>: \<open>junk i\<close> is the byte \<open>malloc\<close> left at offset \<open>i\<close> of the output
  buffer. \<open>hi\<close> is how far the stores of \<open>sprintf\<close> have reached.
\<close>

definition tsEmit ::
    "nat \<Rightarrow> (nat \<Rightarrow> char) \<Rightarrow> string \<Rightarrow> nat \<Rightarrow> string \<Rightarrow> nat \<Rightarrow> fault + string \<times> nat" where
  "tsEmit cap junk out hi text bytes =
     (if cap < length out + length text + 1 then
        Inl (OutputOverrun (length out + length text + 1) cap)
      else if cap < length out + (19 + bytes) then
        Inl (OutputOverrun (length out + (19 + bytes)) cap)
      else
        Inr (out @ text @
               map (\<lambda>i. if i = length out + length text then NUL else junk i)
                 [length out + length text ..< length out + (19 + bytes)],
             max hi (length out + length text + 1)))"

datatype malformed = NotAString | NoParen

datatype step = Aborted malformed string nat | Next string string nat

text \<open>
  The body of the loop of \<open>tsPreprocess\<close>, lines 172 to 214, from \<open>data\<close> at the \<open>S\<close> of a
  match: either one of the two \<open>return 0\<close>, or the cursors for the next round.
\<close>

definition tsInvocation ::
    "bool \<Rightarrow> nat \<Rightarrow> (nat \<Rightarrow> char) \<Rightarrow> string \<Rightarrow> string \<Rightarrow> nat \<Rightarrow> fault + step" where
  "tsInvocation char_signed cap junk data0 out hi =
     (if length data0 < 4 then Inl InputOverrun
      else
        (case tsSkipInside (drop 4 data0) of
           Inl e \<Rightarrow> Inl e
         | Inr [] \<Rightarrow> Inl InputOverrun
         | Inr (q # data) \<Rightarrow>
             if q \<noteq> dquote then Inr (Aborted NotAString out hi)
             else
               (case tsFindQuote data of
                  Inl e \<Rightarrow> Inl e
                | Inr ptr \<Rightarrow>
                    let h = djb2 char_signed (take (length data - length ptr) data);
                        bytes = length data - length ptr
                    in
                      (case tsEmit cap junk out hi (tsFormat h bytes data) bytes of
                         Inl e \<Rightarrow> Inl e
                       | Inr (out', hi') \<Rightarrow>
                           (case tsSkipInside (drop 1 ptr) of
                              Inl e \<Rightarrow> Inl e
                            | Inr [] \<Rightarrow> Inl InputOverrun
                            | Inr (p # data') \<Rightarrow>
                                if p \<noteq> CHR '')'' then Inr (Aborted NoParen out' hi')
                                else Inr (Next data' out' hi'))))))"

lemma tsMatch_EndOfInput_length:
  "tsMatch data m = Inr (EndOfInput d) \<Longrightarrow> length d \<le> length data"
  by (induction data m rule: tsMatch.induct) (auto split: if_splits)

lemma tsNext_round_Return_length:
  "tsNext_round data out = Inr (Return b data' out') \<Longrightarrow> length data' \<le> length data"
  unfolding tsNext_round_def
  by (auto split: list.splits if_splits sum.splits prod.splits match_end.splits
      dest!: tsSkipWhite_internal_length tsMatch_EndOfInput_length)

lemma tsNext_internal_length:
  "tsNext_internal data out = Inr (result, data', out') \<Longrightarrow> length data' \<le> length data"
proof (induction data out rule: tsNext_internal.induct)
  case (1 data out)
  show ?case
  proof (cases "tsNext_round data out")
    case (Inl e)
    with "1.prems" show ?thesis
      by (simp add: tsNext_internal.simps [of data out])
  next
    case (Inr r)
    show ?thesis
    proof (cases r)
      case (Return b d q)
      with Inr "1.prems" have "tsNext_round data out = Inr (Return b data' out')"
        by (simp add: tsNext_internal.simps [of data out])
      then show ?thesis
        by (rule tsNext_round_Return_length)
    next
      case (Again d q)
      with Inr "1.prems" have "tsNext_internal d q = Inr (result, data', out')"
        by (simp add: tsNext_internal.simps [of data out])
      with "1.IH" Inr Again have "length data' \<le> length d"
        by simp
      moreover have "length d < length data"
        using Inr Again by (auto dest: tsNext_round_progress)
      ultimately show ?thesis by simp
    qed
  qed
qed

lemma tsSkipInside_length:
  "tsSkipInside data = Inr data' \<Longrightarrow> length data' \<le> length data"
  by (induction data rule: tsSkipInside.induct) (auto split: if_splits)

lemma tsFindQuote_length:
  "tsFindQuote ptr = Inr ptr' \<Longrightarrow> length ptr' \<le> length ptr"
  by (induction ptr rule: tsFindQuote.induct) (auto split: if_splits list.splits)

lemma tsInvocation_progress:
  assumes "tsInvocation char_signed cap junk data out hi = Inr (Next data' out' hi')"
  shows "length data' < length data"
proof -
  from assms obtain q d ptr p where
    a: "tsSkipInside (drop 4 data) = Inr (q # d)" and
    b: "tsFindQuote d = Inr ptr" and
    c: "tsSkipInside (drop 1 ptr) = Inr (p # data')"
    by (auto simp: tsInvocation_def Let_def
        split: if_splits sum.splits list.splits prod.splits)
  have "length (p # data') \<le> length (drop 1 ptr)"
    using c by (rule tsSkipInside_length)
  moreover have "length ptr \<le> length d"
    using b by (rule tsFindQuote_length)
  moreover have "length (q # d) \<le> length (drop 4 data)"
    using a by (rule tsSkipInside_length)
  ultimately show ?thesis by simp
qed

section \<open>tsPreprocess\<close>

datatype loop_end = Finished string bool nat | Stopped malformed string nat

text \<open>
  The \<open>while\<close> of \<open>tsPreprocess\<close> (lines 170 to 215) from the two cursors, the reach of the
  stores and \<open>fileWasModified\<close>: it ends when \<open>tsNext_internal\<close> returns 0, or at one of
  the two \<open>return 0\<close> of its body. Every store of \<open>tsNext_internal\<close> is \<open>*out++ = *data++\<close>,
  one byte at the cursor and the cursor moved by one, so these stores have stayed
  inside the block exactly when the cursor handed back is not behind its end: that
  is tested here, behind the call.
\<close>

function tsLoop ::
    "bool \<Rightarrow> nat \<Rightarrow> (nat \<Rightarrow> char) \<Rightarrow> string \<Rightarrow> string \<Rightarrow> nat \<Rightarrow> bool \<Rightarrow>
       fault + loop_end" where
  "tsLoop char_signed cap junk data out hi fileWasModified =
     (case tsNext_internal data out of
        Inl e \<Rightarrow> Inl e
      | Inr (found, data1, out1) \<Rightarrow>
          if cap < length out1 then Inl (OutputOverrun (length out1) cap)
          else if \<not> found then Inr (Finished out1 fileWasModified hi)
          else
            (case tsInvocation char_signed cap junk data1 out1 hi of
               Inl e \<Rightarrow> Inl e
             | Inr (Aborted m out2 hi2) \<Rightarrow> Inr (Stopped m out2 hi2)
             | Inr (Next data2 out2 hi2) \<Rightarrow>
                 tsLoop char_signed cap junk data2 out2 hi2 True))"
  by pat_completeness auto
termination
  by (relation
      "measure (\<lambda>(char_signed, cap, junk, data, out, hi, fileWasModified). length data)")
    (auto dest!: tsNext_internal_length tsInvocation_progress)

declare tsLoop.simps [simp del]

text \<open>
  The file system is a map from paths to contents, with \<open>writable\<close> telling for which
  paths \<open>fopen( out_path, "wb" )\<close> succeeds. The code does not test what that call
  returns (lines 219 and 220), so where it fails \<open>fwrite\<close> gets the null stream. What
  \<open>printf\<close> prints is a message that names the file. \<open>stored\<close> is how far the stores and
  the write cursor of the run reach, in bytes from the start of the output block,
  \<open>capacity\<close> the size asked of \<open>malloc\<close> for that block.
\<close>

datatype message = CouldNotOpen string | OnlyStrings string | MustHaveParen string

fun diagnostic :: "malformed \<Rightarrow> string \<Rightarrow> message" where
  "diagnostic NotAString path = OnlyStrings path"
| "diagnostic NoParen path = MustHaveParen path"

record outcome =
  returned :: int
  files :: "string \<Rightarrow> string option"
  printed :: "message list"
  stored :: nat
  capacity :: nat

definition tsPreprocess ::
    "bool \<Rightarrow> (nat \<Rightarrow> char) \<Rightarrow> (string \<Rightarrow> bool) \<Rightarrow> (string \<Rightarrow> string option) \<Rightarrow>
       string \<Rightarrow> string \<Rightarrow> fault + outcome" where
  "tsPreprocess char_signed junk writable fs path out_path =
     (case fs path of
        None \<Rightarrow>
          Inr \<lparr>returned = 0, files = fs, printed = [CouldNotOpen path],
               stored = 0, capacity = 0\<rparr>
      | Some content \<Rightarrow>
          let size = length content;
              data = content @ [NUL]
          in
            (case tsLoop char_signed (size * 2) junk data [] 0 False of
               Inl e \<Rightarrow> Inl e
             | Inr (Stopped m out hi) \<Rightarrow>
                 Inr \<lparr>returned = 0, files = fs, printed = [diagnostic m path],
                      stored = max hi (length out), capacity = size * 2\<rparr>
             | Inr (Finished out fileWasModified hi) \<Rightarrow>
                 if fileWasModified then
                   if writable out_path then
                     Inr \<lparr>returned = 1, files = fs(out_path \<mapsto> out), printed = [],
                          stored = max hi (length out), capacity = size * 2\<rparr>
                   else Inl NullStream
                 else
                   Inr \<lparr>returned = 0, files = fs, printed = [],
                        stored = max hi (length out), capacity = size * 2\<rparr>))"

section \<open>The words of the specification\<close>

text \<open>
  The hash as the specification words it: from 5381, \<open>acc = acc * 33 + c\<close> for each byte
  \<open>c\<close> taken as its byte value, in 32-bit unsigned arithmetic.
\<close>

definition djb2_spec :: "string \<Rightarrow> 32 word" where
  "djb2_spec str = foldl (\<lambda>acc c. acc * 33 + of_char c) 5381 str"

text \<open>
  An input contains a trigger when the four bytes \<open>SID(\<close> stand somewhere in it; the
  trigger is bare when it stands at the start of the input or behind a byte that is
  not alphanumeric (\<open>after_alnum\<close> tells what the byte before the list is).
\<close>

fun has_trigger :: "string \<Rightarrow> bool" where
  "has_trigger [] = False"
| "has_trigger (c # cs) = (take 4 (c # cs) = ''SID('' \<or> has_trigger cs)"

fun bare_trigger :: "bool \<Rightarrow> string \<Rightarrow> bool" where
  "bare_trigger after_alnum [] = False"
| "bare_trigger after_alnum (c # cs) =
     ((\<not> after_alnum \<and> take 4 (c # cs) = ''SID('') \<or> bare_trigger (isalnum c) cs)"

text \<open>
  The literal as the specification words it: a backslash takes the byte behind it
  along, whatever that byte is, and a double quote outside such a pair ends the
  literal. \<open>literal_span\<close> holds of the byte sequences that can stand between the
  opening and the terminating quote. \<open>replacement\<close> is the text the specification
  gives for a hash and a literal.
\<close>

fun literal_span :: "string \<Rightarrow> bool" where
  "literal_span [] = True"
| "literal_span (c # cs) =
     (if c = bslash then (case cs of [] \<Rightarrow> False | e # cs' \<Rightarrow> literal_span cs')
      else c \<noteq> dquote \<and> literal_span cs)"

definition replacement :: "32 word \<Rightarrow> string \<Rightarrow> string" where
  "replacement h lit = ''0x'' @ hex8 h @ '' /* '' @ dquote # lit @ dquote # '' */''"

text \<open>
  Reading hexadecimal digits back: the value of a digit is its place among the
  sixteen digits, and a digit string is read most significant digit first.
\<close>

definition hexvalue :: "char \<Rightarrow> 32 word" where
  "hexvalue c = of_nat (length (takeWhile (\<lambda>d. d \<noteq> c) ''0123456789abcdef''))"

definition unhex :: "string \<Rightarrow> 32 word" where
  "unhex s = foldl (\<lambda>acc c. acc * 16 + hexvalue c) 0 s"

text \<open>
  For the examples: an output block that \<open>malloc\<close> hands out filled with NUL bytes,
  and a file system where every path can be opened for writing.
\<close>

definition zeroed :: "nat \<Rightarrow> char" where
  "zeroed i = NUL"

definition every_path :: "string \<Rightarrow> bool" where
  "every_path p = True"

text \<open>The unfoldings that evaluate a run on a given file.\<close>

lemmas ts_eval =
  tsPreprocess_def tsLoop.simps tsNext_internal.simps tsNext_round_def tsInvocation_def
  tsEmit_def tsFormat_def hex8_def hexdigit_def djb2_def char_to_unsigned_def
  NUL_def dquote_def bslash_def isspace_def isalnum_def zeroed_def every_path_def Let_def

section \<open>The hash\<close>

lemma djb2_loop_foldl:
  "djb2_loop char_signed h str =
     foldl (\<lambda>acc c. acc * 33 + char_to_unsigned char_signed c) h str"
  by (induction str arbitrary: h) (simp_all add: push_bit_eq_mult algebra_simps)

lemma char_to_unsigned_plain:
  "\<not> char_signed \<or> (of_char c :: nat) < 128 \<Longrightarrow> char_to_unsigned char_signed c = of_char c"
  by (auto simp: char_to_unsigned_def)

lemma foldl_plain:
  "\<not> char_signed \<or> (\<forall>c \<in> set str. (of_char c :: nat) < 128) \<Longrightarrow>
     foldl (\<lambda>acc c. acc * 33 + char_to_unsigned char_signed c) h str =
     foldl (\<lambda>acc c. acc * 33 + of_char c) h str"
  by (induction str arbitrary: h) (auto simp: char_to_unsigned_plain)

text \<open>
  C2, as the code has it. \<open>djb2\<close> is the left fold from 5381 of \<open>acc = acc * 33 + c\<close> in
  32-bit unsigned arithmetic, \<open>c\<close> being the value of the plain \<open>char\<close>. That value is the
  byte value where plain \<open>char\<close> is unsigned and for every byte below \<open>0x80\<close>, and there
  the fold is the one of the specification. The empty range hashes to 5381 and the
  range \<open>a\<close> to \<open>5381 * 33 + 97\<close>.
\<close>

theorem djb2_is_fold:
  "djb2 char_signed str = foldl (\<lambda>acc c. acc * 33 + char_to_unsigned char_signed c) 5381 str
   \<and> (\<not> char_signed \<or> (\<forall>c \<in> set str. (of_char c :: nat) < 128)
        \<longrightarrow> djb2 char_signed str = djb2_spec str)
   \<and> djb2 char_signed [] = 5381
   \<and> djb2 char_signed ''a'' = 5381 * 33 + 97"
proof -
  have fold: "djb2 char_signed str =
      foldl (\<lambda>acc c. acc * 33 + char_to_unsigned char_signed c) 5381 str"
    by (simp add: djb2_def djb2_loop_foldl)
  have plain: "djb2 char_signed str = djb2_spec str"
    if "\<not> char_signed \<or> (\<forall>c \<in> set str. (of_char c :: nat) < 128)"
    using that by (simp add: fold djb2_spec_def foldl_plain)
  have empty: "djb2 char_signed [] = 5381"
    by (simp add: djb2_def)
  have a: "djb2 char_signed ''a'' = 5381 * 33 + 97"
    by (simp add: djb2_def char_to_unsigned_def)
  from fold plain empty a show ?thesis
    by blast
qed

theorem djb2_is_fold_witness:
  "djb2 True ''abc'' = djb2_spec ''abc'' \<and> djb2 True ''abc'' = 193485963"
  using djb2_is_fold [of True "''abc''"]
  by (simp add: djb2_spec_def char_to_unsigned_def)

text \<open>
  C2, as stated, fails where plain \<open>char\<close> is signed: the byte \<open>0x80\<close> is read as \<open>-128\<close>, so
  the range of that one byte hashes to \<open>5381 * 33 - 128\<close>, not to \<open>5381 * 33 + 128\<close>.
\<close>

theorem djb2_byte_value_counterexample:
  "djb2 True [CHR 0x80] \<noteq> djb2_spec [CHR 0x80]"
  by (simp add: djb2_def djb2_spec_def char_to_unsigned_def)

section \<open>What the scanner does\<close>

lemma isspace_not_NUL: "isspace c \<Longrightarrow> c \<noteq> NUL"
  by (auto simp: isspace_def NUL_def)

lemma isalnum_not_NUL: "isalnum c \<Longrightarrow> c \<noteq> NUL"
  by (auto simp: isalnum_def NUL_def)

lemma isspace_not_isalnum: "isspace c \<Longrightarrow> \<not> isalnum c"
  by (auto simp: isspace_def isalnum_def)

lemma tsSkipWhite_internal_eq:
  "tsSkipWhite_internal data out =
     (if dropWhile isspace data = [] then Inl InputOverrun
      else Inr (dropWhile isspace data, out @ takeWhile isspace data))"
  by (induction data arbitrary: out) simp_all

lemma tsCopyAlnum_eq:
  "tsCopyAlnum data out =
     (if dropWhile isalnum data = [] then Inl InputOverrun
      else Inr (dropWhile isalnum data, out @ takeWhile isalnum data))"
  by (induction data arbitrary: out) simp_all

lemma tsSkipInside_eq:
  "tsSkipInside data =
     (if dropWhile isspace data = [] then Inl InputOverrun
      else Inr (dropWhile isspace data))"
  by (induction data) simp_all

lemma tsMatch_Matched:
  "tsMatch data m = Inr Matched \<Longrightarrow> take (length m) data = m"
  by (induction data m rule: tsMatch.induct) (auto split: if_splits)

lemma tsMatch_no_fault:
  "NUL \<in> set data \<Longrightarrow> \<exists>r. tsMatch data m = Inr r"
  by (induction data m rule: tsMatch.induct) auto

lemma dropWhile_keeps_NUL:
  "NUL \<in> set data \<Longrightarrow> \<not> P NUL \<Longrightarrow> NUL \<in> set (dropWhile P data)"
  by (induction data) auto

lemma tsNext_round_no_fault:
  assumes "NUL \<in> set data"
  shows "\<exists>r. tsNext_round data out = Inr r"
proof -
  have sp: "\<not> isspace NUL" and al: "\<not> isalnum NUL"
    using isspace_not_NUL isalnum_not_NUL by blast+
  let ?d1 = "dropWhile isspace data"
  have n1: "NUL \<in> set ?d1"
    using assms sp by (rule dropWhile_keeps_NUL)
  then have ne1: "?d1 \<noteq> []" by (metis empty_iff empty_set)
  have n2: "NUL \<in> set (dropWhile isalnum ?d1)"
    using n1 al by (rule dropWhile_keeps_NUL)
  then have ne2: "dropWhile isalnum ?d1 \<noteq> []" by (metis empty_iff empty_set)
  obtain m where m: "tsMatch ?d1 ''SID('' = Inr m"
    using tsMatch_no_fault [OF n1] by blast
  from assms have "data \<noteq> []" by auto
  then show ?thesis
    using ne1 ne2 m
    by (auto simp: tsNext_round_def tsSkipWhite_internal_eq tsCopyAlnum_eq
        simp del: dropWhile_eq_Nil_conv tsMatch.simps
        split: list.splits match_end.splits)
qed

lemma tsNext_round_Again:
  assumes "tsNext_round data out = Inr (Again d q)"
  shows "\<exists>copied. copied \<noteq> [] \<and> data = copied @ d \<and> q = out @ copied \<and>
           NUL \<notin> set copied \<and> (\<not> isalnum (last copied) \<or> \<not> isalnum (hd d))"
proof -
  let ?ws = "takeWhile isspace data" and ?d1 = "dropWhile isspace data"
  have ws: "NUL \<notin> set ?ws"
    using isspace_not_NUL by (auto dest: set_takeWhileD)
  from assms obtain c1 rest1 where d1: "?d1 = c1 # rest1" and c1: "c1 \<noteq> NUL" and
    alt: "(\<not> isalnum c1 \<and> d = rest1 \<and> q = out @ ?ws @ [c1]) \<or>
          (isalnum c1 \<and> d = dropWhile isalnum ?d1 \<and> d \<noteq> [] \<and>
             q = out @ ?ws @ takeWhile isalnum ?d1)"
    by (auto simp: tsNext_round_def tsSkipWhite_internal_eq tsCopyAlnum_eq
        simp del: dropWhile_eq_Nil_conv tsMatch.simps
        split: list.splits if_splits match_end.splits sum.splits)
  have split: "data = ?ws @ ?d1" by simp
  from alt show ?thesis
  proof
    assume a: "\<not> isalnum c1 \<and> d = rest1 \<and> q = out @ ?ws @ [c1]"
    let ?copied = "?ws @ [c1]"
    have "data = ?copied @ d"
      using a d1 split by (metis append.assoc append_Cons append_Nil)
    moreover have "NUL \<notin> set ?copied" using ws c1 by auto
    ultimately show ?thesis using a by (intro exI [of _ ?copied]) auto
  next
    assume a: "isalnum c1 \<and> d = dropWhile isalnum ?d1 \<and> d \<noteq> [] \<and>
      q = out @ ?ws @ takeWhile isalnum ?d1"
    let ?run = "takeWhile isalnum ?d1"
    let ?copied = "?ws @ ?run"
    have run: "?run \<noteq> []" using a d1 by simp
    have "NUL \<notin> set ?run"
      using isalnum_not_NUL by (auto dest: set_takeWhileD)
    then have nul: "NUL \<notin> set ?copied" using ws by auto
    have "?d1 = ?run @ d" using a by simp
    then have "data = ?copied @ d" using split by (metis append.assoc)
    moreover have "\<not> isalnum (hd d)"
      using a by (metis hd_dropWhile)
    ultimately show ?thesis using a run nul by (intro exI [of _ ?copied]) auto
  qed
qed

lemma tsNext_round_found:
  assumes "tsNext_round data out = Inr (Return True d q)"
  shows "\<exists>ws. data = ws @ d \<and> q = out @ ws \<and> (\<forall>c \<in> set ws. isspace c) \<and>
           take 4 d = ''SID(''"
proof -
  let ?ws = "takeWhile isspace data" and ?d1 = "dropWhile isspace data"
  from assms have d: "d = ?d1" and q: "q = out @ ?ws" and m: "tsMatch d ''SID('' = Inr Matched"
    by (auto simp: tsNext_round_def tsSkipWhite_internal_eq
        simp del: dropWhile_eq_Nil_conv tsMatch.simps
        split: list.splits if_splits match_end.splits sum.splits)
  have "take 4 d = ''SID(''"
    using tsMatch_Matched [OF m] by (simp add: eval_nat_numeral)
  moreover have "data = ?ws @ d" using d by simp
  moreover have "\<forall>c \<in> set ?ws. isspace c" by (auto dest: set_takeWhileD)
  ultimately show ?thesis using q by blast
qed

lemma tsNext_internal_no_fault:
  "NUL \<in> set data \<Longrightarrow> \<exists>result d q. tsNext_internal data out = Inr (result, d, q)"
proof (induction data out rule: tsNext_internal.induct)
  case (1 data out)
  obtain r where r: "tsNext_round data out = Inr r"
    using tsNext_round_no_fault [OF "1.prems"] by blast
  show ?case
  proof (cases r)
    case (Return b d q)
    with r show ?thesis
      by (simp add: tsNext_internal.simps [of data out])
  next
    case (Again d q)
    with r obtain copied where "data = copied @ d" and "NUL \<notin> set copied"
      using tsNext_round_Again by blast
    with "1.prems" have "NUL \<in> set d" by auto
    with "1.IH" r Again have "\<exists>result d' q'. tsNext_internal d q = Inr (result, d', q')"
      by simp
    with r Again show ?thesis
      by (simp add: tsNext_internal.simps [of data out])
  qed
qed

lemma tsNext_internal_found:
  "tsNext_internal data out = Inr (True, d, q) \<Longrightarrow>
     \<exists>copied. data = copied @ d \<and> q = out @ copied \<and> take 4 d = ''SID('' \<and>
       (copied = [] \<or> \<not> isalnum (last copied))"
proof (induction data out rule: tsNext_internal.induct)
  case (1 data out)
  show ?case
  proof (cases "tsNext_round data out")
    case (Inl e)
    with "1.prems" show ?thesis
      by (simp add: tsNext_internal.simps [of data out])
  next
    case (Inr r)
    show ?thesis
    proof (cases r)
      case (Return b d' q')
      with Inr "1.prems" have "tsNext_round data out = Inr (Return True d q)"
        by (simp add: tsNext_internal.simps [of data out])
      then obtain ws where "data = ws @ d" and "q = out @ ws" and
        ws: "\<forall>c \<in> set ws. isspace c" and "take 4 d = ''SID(''"
        using tsNext_round_found by blast
      moreover have "ws = [] \<or> \<not> isalnum (last ws)"
        using ws isspace_not_isalnum by (cases ws rule: rev_cases) auto
      ultimately show ?thesis by blast
    next
      case (Again d1 q1)
      with Inr obtain c1 where c1: "c1 \<noteq> []" "data = c1 @ d1" "q1 = out @ c1"
        and edge: "\<not> isalnum (last c1) \<or> \<not> isalnum (hd d1)"
        using tsNext_round_Again by blast
      from Inr Again "1.prems" have "tsNext_internal d1 q1 = Inr (True, d, q)"
        by (simp add: tsNext_internal.simps [of data out])
      with "1.IH" Inr Again obtain c2 where c2: "d1 = c2 @ d" "q = q1 @ c2"
        and t: "take 4 d = ''SID(''" and e2: "c2 = [] \<or> \<not> isalnum (last c2)"
        by blast
      have S: "isalnum (hd d)"
      proof -
        from t have "hd d = CHR ''S''" by (cases d) auto
        then show ?thesis by (simp add: isalnum_def)
      qed
      have "\<not> isalnum (last (c1 @ c2))"
      proof (cases "c2 = []")
        case True
        with c2 S edge show ?thesis by auto
      next
        case False
        with e2 show ?thesis by simp
      qed
      with c1 c2 t show ?thesis
        by (intro exI [of _ "c1 @ c2"]) auto
    qed
  qed
qed

lemma tsMatch_alnum_Mismatch:
  "length m \<le> length data \<Longrightarrow> \<forall>c \<in> set (take (length m) data). isalnum c \<Longrightarrow>
     \<exists>c \<in> set m. \<not> isalnum c \<Longrightarrow> tsMatch data m = Inr Mismatch"
proof (induction data m rule: tsMatch.induct)
  case (1 data)
  then show ?case by simp
next
  case (2 m match)
  then show ?case by simp
next
  case (3 c data m match)
  from "3.prems" have c: "isalnum c" by simp
  then have nul: "c \<noteq> NUL" by (rule isalnum_not_NUL)
  show ?case
  proof (cases "c = m")
    case True
    with c "3.prems" have "\<exists>c \<in> set match. \<not> isalnum c" by auto
    moreover from "3.prems" have "length match \<le> length data"
      and "\<forall>c \<in> set (take (length match) data). isalnum c" by auto
    ultimately have "tsMatch data match = Inr Mismatch"
      using "3.IH" nul True by blast
    with nul True show ?thesis by simp
  next
    case False
    with nul show ?thesis by simp
  qed
qed

lemma take_of_long_prefix: "n \<le> length xs \<Longrightarrow> take n (xs @ ys) = take n xs"
  by simp

lemma tsNext_round_alnum_run:
  assumes w: "w \<noteq> []" "\<forall>c \<in> set w. isalnum c"
  shows "tsNext_round (w @ ''SID('' @ rest) out = Inr (Again (''('' @ rest) (out @ w @ ''SID''))"
proof -
  define run where "run = w @ ''SID''"
  define data where "data = w @ ''SID('' @ rest"
  have run: "\<forall>c \<in> set run. isalnum c"
    using w by (auto simp: run_def isalnum_def)
  have data: "data = run @ ''('' @ rest"
    by (simp add: data_def run_def)
  obtain a w' where a: "w = a # w'" using w by (cases w) auto
  then have "isalnum a" using w by simp
  then have a1: "a \<noteq> NUL" and a2: "\<not> isspace a"
    using isalnum_not_NUL isspace_not_isalnum by blast+
  have hd: "data = a # w' @ ''SID('' @ rest"
    by (simp add: data_def a)
  have skip: "tsSkipWhite_internal data out = Inr (data, out)"
    using a2 by (simp add: hd)
  have "4 \<le> length run"
    using a by (simp add: run_def)
  then have "take 4 data = take 4 run"
    unfolding data by (rule take_of_long_prefix)
  then have sub: "set (take 4 data) \<subseteq> set run"
    using set_take_subset [of 4 run] by simp
  have l4: "length ''SID('' = 4"
    by simp
  have "length ''SID('' \<le> length data"
    by (simp add: hd)
  moreover have "\<forall>c \<in> set (take (length ''SID('') data). isalnum c"
    unfolding l4 using sub run by blast
  moreover have "\<exists>c \<in> set ''SID(''. \<not> isalnum c"
    by (simp add: isalnum_def)
  ultimately have m: "tsMatch data ''SID('' = Inr Mismatch"
    by (rule tsMatch_alnum_Mismatch)
  have paren: "\<not> isalnum (CHR ''('')"
    by (simp add: isalnum_def)
  have dw: "dropWhile isalnum data = ''('' @ rest"
    unfolding data using run paren by (subst dropWhile_append2) auto
  have tw: "takeWhile isalnum data = run"
    unfolding data using run paren by (subst takeWhile_append2) auto
  have copy: "tsCopyAlnum data out = Inr (''('' @ rest, out @ run)"
    unfolding tsCopyAlnum_eq dw tw by simp
  have ne: "data \<noteq> []" and hda: "hd data = a"
    by (simp_all add: hd)
  have "tsNext_round data out = Inr (Again (''('' @ rest) (out @ run))"
    using a1 \<open>isalnum a\<close>
    by (simp add: tsNext_round_def list.case_eq_if skip m copy ne hda)
  then show ?thesis
    by (simp add: data_def run_def)
qed

lemma tsNext_internal_Again:
  "tsNext_round data out = Inr (Again d q) \<Longrightarrow> tsNext_internal data out = tsNext_internal d q"
  by (simp add: tsNext_internal.simps [of data out])

lemma tsNext_internal_Return:
  "tsNext_round data out = Inr (Return b d q) \<Longrightarrow> tsNext_internal data out = Inr (b, d, q)"
  by (simp add: tsNext_internal.simps [of data out])

lemma tsNext_internal_alnum_run:
  assumes "w \<noteq> []" "\<forall>c \<in> set w. isalnum c"
  shows "tsNext_internal (w @ ''SID('' @ rest) out = tsNext_internal rest (out @ w @ ''SID('')"
proof -
  have "tsNext_round (''('' @ rest) (out @ w @ ''SID'') = Inr (Again rest (out @ w @ ''SID(''))"
    by (simp add: tsNext_round_def NUL_def isspace_def isalnum_def)
  then have "tsNext_internal (''('' @ rest) (out @ w @ ''SID'') =
      tsNext_internal rest (out @ w @ ''SID('')"
    by (rule tsNext_internal_Again)
  moreover have "tsNext_internal (w @ ''SID('' @ rest) out =
      tsNext_internal (''('' @ rest) (out @ w @ ''SID'')"
    using tsNext_round_alnum_run [OF assms] by (rule tsNext_internal_Again)
  ultimately show ?thesis by simp
qed

lemma tsNext_internal_bare:
  assumes "\<not> isalnum c" "c \<noteq> NUL"
  shows "tsNext_internal (c # ''SID('' @ rest) out = Inr (True, ''SID('' @ rest, out @ [c])"
proof -
  have "tsNext_round (''SID('' @ rest) (out @ [c]) = Inr (Return True (''SID('' @ rest) (out @ [c]))"
    by (simp add: tsNext_round_def NUL_def isspace_def isalnum_def)
  then have r2: "tsNext_internal (''SID('' @ rest) (out @ [c]) = Inr (True, ''SID('' @ rest, out @ [c])"
    by (rule tsNext_internal_Return)
  show ?thesis
  proof (cases "isspace c")
    case True
    then have "tsNext_round (c # ''SID('' @ rest) out = Inr (Return True (''SID('' @ rest) (out @ [c]))"
      using assms by (simp add: tsNext_round_def NUL_def isspace_def isalnum_def)
    then show ?thesis
      by (rule tsNext_internal_Return)
  next
    case False
    then have "tsNext_round (c # ''SID('' @ rest) out = Inr (Again (''SID('' @ rest) (out @ [c]))"
      using assms by (simp add: tsNext_round_def)
    then have "tsNext_internal (c # ''SID('' @ rest) out = tsNext_internal (''SID('' @ rest) (out @ [c])"
      by (rule tsNext_internal_Again)
    with r2 show ?thesis by simp
  qed
qed

lemma bare_trigger_has_trigger: "bare_trigger p s \<Longrightarrow> has_trigger s"
  by (induction s arbitrary: p) auto

lemma take4_before_NUL:
  assumes "take 4 (xs @ [NUL]) = ''SID(''"
  shows "take 4 xs = ''SID(''"
proof -
  have "NUL \<notin> set (take 4 (xs @ [NUL]))"
    unfolding assms by (simp add: NUL_def)
  then have "4 \<le> length xs"
    by (cases "4 \<le> length xs") auto
  with assms show ?thesis by simp
qed

lemma bare_trigger_before_NUL:
  "bare_trigger p (content @ [NUL]) \<Longrightarrow> bare_trigger p content"
proof (induction content arbitrary: p)
  case Nil
  then show ?case by (simp add: NUL_def)
next
  case (Cons c cs)
  from Cons.prems have
    "(\<not> p \<and> take 4 ((c # cs) @ [NUL]) = ''SID('') \<or> bare_trigger (isalnum c) (cs @ [NUL])"
    by simp
  then show ?case
  proof
    assume "\<not> p \<and> take 4 ((c # cs) @ [NUL]) = ''SID(''"
    then have "\<not> p \<and> take 4 (c # cs) = ''SID(''"
      using take4_before_NUL by blast
    then show ?thesis by simp
  next
    assume "bare_trigger (isalnum c) (cs @ [NUL])"
    then have "bare_trigger (isalnum c) cs" by (rule Cons.IH)
    then show ?thesis by simp
  qed
qed

lemma bare_trigger_append:
  assumes "take 4 d = ''SID(''"
  shows "(copied = [] \<and> \<not> p) \<or> (copied \<noteq> [] \<and> \<not> isalnum (last copied)) \<Longrightarrow>
    bare_trigger p (copied @ d)"
proof (induction copied arbitrary: p)
  case Nil
  with assms show ?case by (cases d) auto
next
  case (Cons c cs)
  have "bare_trigger (isalnum c) (cs @ d)"
  proof (cases "cs = []")
    case True
    with Cons.prems have "\<not> isalnum c" by simp
    with True show ?thesis using Cons.IH [of "isalnum c"] by simp
  next
    case False
    with Cons.prems have "\<not> isalnum (last cs)" by simp
    with False show ?thesis using Cons.IH [of "isalnum c"] by simp
  qed
  then show ?case by simp
qed

lemma tsNext_round_Return_copied:
  assumes "tsNext_round data out = Inr (Return b d q)"
  shows "\<exists>ws rest. data = ws @ rest \<and> q = out @ ws \<and> NUL \<notin> set ws"
proof -
  from assms have "q = out \<or> q = out @ takeWhile isspace data"
    by (auto simp: tsNext_round_def tsSkipWhite_internal_eq
        simp del: dropWhile_eq_Nil_conv tsMatch.simps
        split: list.splits if_splits match_end.splits sum.splits)
  then show ?thesis
  proof
    assume "q = out"
    then show ?thesis
      by (intro exI [of _ "[]"] exI [of _ data]) simp
  next
    assume q: "q = out @ takeWhile isspace data"
    have "NUL \<notin> set (takeWhile isspace data)"
      using isspace_not_NUL by (auto dest: set_takeWhileD)
    with q show ?thesis
      by (intro exI [of _ "takeWhile isspace data"] exI [of _ "dropWhile isspace data"]) simp
  qed
qed

lemma tsNext_internal_copied:
  "tsNext_internal data out = Inr (result, d, q) \<Longrightarrow>
     \<exists>copied rest. data = copied @ rest \<and> q = out @ copied \<and> NUL \<notin> set copied"
proof (induction data out rule: tsNext_internal.induct)
  case (1 data out)
  show ?case
  proof (cases "tsNext_round data out")
    case (Inl e)
    with "1.prems" show ?thesis
      by (simp add: tsNext_internal.simps [of data out])
  next
    case (Inr r)
    show ?thesis
    proof (cases r)
      case (Return b d' q')
      with Inr "1.prems" have "tsNext_round data out = Inr (Return result d q)"
        by (simp add: tsNext_internal.simps [of data out])
      then show ?thesis
        by (rule tsNext_round_Return_copied)
    next
      case (Again d1 q1)
      with Inr obtain c1 where c1: "data = c1 @ d1" "q1 = out @ c1" "NUL \<notin> set c1"
        using tsNext_round_Again by blast
      from Inr Again "1.prems" have "tsNext_internal d1 q1 = Inr (result, d, q)"
        by (simp add: tsNext_internal.simps [of data out])
      with "1.IH" Inr Again obtain c2 rest where c2: "d1 = c2 @ rest" "q = q1 @ c2"
        "NUL \<notin> set c2"
        by blast
      with c1 show ?thesis
        by (intro exI [of _ "c1 @ c2"] exI [of _ rest]) auto
    qed
  qed
qed

text \<open>
  On a buffer that ends in its NUL the scanner stores fewer bytes than the buffer
  has: it stores what it has read, and it never reads past a NUL.
\<close>

lemma tsNext_internal_room:
  assumes "tsNext_internal (text @ [NUL]) out = Inr (result, d, q)"
  shows "\<exists>copied more. text = copied @ more \<and> q = out @ copied"
proof -
  from tsNext_internal_copied [OF assms] obtain copied rest where
    c: "text @ [NUL] = copied @ rest" "q = out @ copied" "NUL \<notin> set copied"
    by blast
  have "rest \<noteq> []"
  proof
    assume "rest = []"
    with c(1) have "NUL \<in> set copied"
      by (metis append_Nil2 in_set_conv_decomp)
    with c(3) show False by simp
  qed
  then obtain more where "rest = more @ [NUL]"
    using c(1) by (metis append_butlast_last_id last_appendR last_snoc)
  with c(1) have "text = copied @ more"
    by simp
  with c(2) show ?thesis
    by blast
qed

lemma tsNext_internal_no_bare_trigger:
  assumes none: "\<not> bare_trigger False text"
  shows "\<exists>d copied more. tsNext_internal (text @ [NUL]) out = Inr (False, d, out @ copied) \<and>
           text = copied @ more"
proof -
  let ?data = "text @ [NUL]"
  have "NUL \<in> set ?data" by simp
  then obtain result d q where next1: "tsNext_internal ?data out = Inr (result, d, q)"
    using tsNext_internal_no_fault by blast
  have "\<not> result"
  proof
    assume result
    with next1 have "tsNext_internal ?data out = Inr (True, d, q)" by simp
    then obtain copied where "?data = copied @ d" and "take 4 d = ''SID(''"
      and "copied = [] \<or> \<not> isalnum (last copied)"
      using tsNext_internal_found by blast
    then have "bare_trigger False ?data"
      using bare_trigger_append [of d copied False] by auto
    with none show False
      using bare_trigger_before_NUL by blast
  qed
  with next1 tsNext_internal_room [OF next1] show ?thesis
    by auto
qed

lemma tsLoop_not_found:
  "tsNext_internal data out = Inr (False, data1, out1) \<Longrightarrow> length out1 \<le> cap \<Longrightarrow>
     tsLoop char_signed cap junk data out hi modified = Inr (Finished out1 modified hi)"
  by (simp add: tsLoop.simps [of char_signed cap junk data out hi modified])

lemma tsPreprocess_no_bare_trigger:
  assumes opened: "fs path = Some content" and none: "\<not> bare_trigger False content"
  shows "\<exists>r. tsPreprocess char_signed junk writable fs path out_path = Inr r \<and>
           returned r = 0 \<and> files r = fs \<and> printed r = []"
proof -
  from tsNext_internal_no_bare_trigger [OF none, of "[]"] obtain d copied more where
    next1: "tsNext_internal (content @ [NUL]) [] = Inr (False, d, [] @ copied)" and
    content: "content = copied @ more"
    by blast
  have "length ([] @ copied) \<le> length content * 2"
    using content by simp
  with next1 have "tsLoop char_signed (length content * 2) junk (content @ [NUL]) [] 0 False =
      Inr (Finished ([] @ copied) False 0)"
    by (rule tsLoop_not_found)
  with opened show ?thesis
    by (simp add: tsPreprocess_def)
qed

section \<open>Inputs without a trigger\<close>

text \<open>
  C6. For every input that contains no \<open>SID(\<close>, \<open>tsPreprocess\<close> returns 0, prints nothing
  and leaves every file as it was, the one at \<open>out_path\<close> too; so a second run on the
  files the first one left does the same as the first.
\<close>

theorem no_trigger_not_modified:
  assumes "fs path = Some content" and "\<not> has_trigger content"
  shows "\<exists>r. tsPreprocess char_signed junk writable fs path out_path = Inr r \<and>
           returned r = 0 \<and> files r = fs \<and> printed r = [] \<and>
           tsPreprocess char_signed junk writable (files r) path out_path = Inr r"
proof -
  from assms(2) have "\<not> bare_trigger False content"
    using bare_trigger_has_trigger by blast
  with assms(1) obtain r where "tsPreprocess char_signed junk writable fs path out_path = Inr r"
    and "returned r = 0" and "files r = fs" and "printed r = []"
    using tsPreprocess_no_bare_trigger by blast
  then show ?thesis by auto
qed

theorem no_trigger_not_modified_witness:
  "\<exists>r. tsPreprocess True zeroed every_path
          [''a.c'' \<mapsto> ''int x = 0x0f923099 /* '' @ dquote # ''hello'' @ dquote # '' */;'']
          ''a.c'' ''a.c'' = Inr r \<and>
        returned r = 0 \<and>
        files r = [''a.c'' \<mapsto> ''int x = 0x0f923099 /* '' @ dquote # ''hello'' @ dquote # '' */;''] \<and>
        printed r = []"
proof -
  let ?c = "''int x = 0x0f923099 /* '' @ dquote # ''hello'' @ dquote # '' */;''"
  have a: "[''a.c'' \<mapsto> ?c] ''a.c'' = Some ?c" by simp
  have b: "\<not> has_trigger ?c" by (simp add: dquote_def)
  show ?thesis
    using no_trigger_not_modified [where fs = "[''a.c'' \<mapsto> ?c]" and path = "''a.c''"
        and content = ?c and char_signed = True and junk = zeroed and writable = every_path
        and out_path = "''a.c''", OF a b]
    by blast
qed

section \<open>Triggers behind an alphanumeric byte\<close>

text \<open>
  C10. Where the scanner stands at an alphanumeric run that ends in \<open>SID\<close> before a
  \<open>(\<close>, as in \<open>ASID(\<close> and \<open>ENDSID(\<close>, it copies the whole run and the parenthesis to the
  output and scans on behind them: that occurrence is no trigger. Behind a byte that
  is not alphanumeric (and not NUL), an underscore say, the same four bytes are a
  match. For the whole file: when every \<open>SID(\<close> in it stands behind an alphanumeric
  byte, \<open>tsPreprocess\<close> returns 0, prints nothing and writes nothing.
\<close>

theorem trigger_behind_alnum_is_text:
  "(w \<noteq> [] \<and> (\<forall>c \<in> set w. isalnum c) \<longrightarrow>
      tsNext_internal (w @ ''SID('' @ rest) out = tsNext_internal rest (out @ w @ ''SID(''))
   \<and> (\<not> isalnum c \<and> c \<noteq> NUL \<longrightarrow>
      tsNext_internal (c # ''SID('' @ rest) out = Inr (True, ''SID('' @ rest, out @ [c]))
   \<and> (fs path = Some content \<and> \<not> bare_trigger False content \<longrightarrow>
      (\<exists>r. tsPreprocess char_signed junk writable fs path out_path = Inr r \<and>
         returned r = 0 \<and> files r = fs \<and> printed r = []))"
  using tsNext_internal_alnum_run [of w rest out] tsNext_internal_bare [of c rest out]
    tsPreprocess_no_bare_trigger [of fs path content char_signed junk writable out_path]
  by blast

theorem trigger_behind_alnum_is_text_witness:
  "tsNext_internal (''END'' @ ''SID('' @ dquote # ''x'' @ dquote # '')'' @ [NUL]) [] =
     tsNext_internal (dquote # ''x'' @ dquote # '')'' @ [NUL]) (''ENDSID('')
   \<and> tsNext_internal (CHR ''_'' # ''SID('' @ dquote # ''x'' @ dquote # '')'' @ [NUL]) [] =
     Inr (True, ''SID('' @ dquote # ''x'' @ dquote # '')'' @ [NUL], ''_'')
   \<and> (\<exists>r. tsPreprocess True zeroed every_path
           [''a.c'' \<mapsto> ''ASID('' @ dquote # ''x'' @ dquote # '')''] ''a.c'' ''b.c'' = Inr r \<and>
         returned r = 0 \<and> files r = [''a.c'' \<mapsto> ''ASID('' @ dquote # ''x'' @ dquote # '')''] \<and>
         printed r = [])
   \<and> tsPreprocess True zeroed every_path
         [''a.c'' \<mapsto> ''_SID('' @ dquote # ''abcdefgh'' @ dquote # '')''] ''a.c'' ''b.c'' =
       Inr \<lparr>returned = 1,
            files = [''a.c'' \<mapsto> ''_SID('' @ dquote # ''abcdefgh'' @ dquote # '')'',
                     ''b.c'' \<mapsto> ''_0x66a99fa9 /* '' @ dquote # ''abcdefgh'' @ dquote # '' */''],
            printed = [], stored = 29, capacity = 32\<rparr>"
proof -
  let ?rest = "dquote # ''x'' @ dquote # '')'' @ [NUL]"
  let ?c = "''ASID('' @ dquote # ''x'' @ dquote # '')''"
  have w: "''END'' \<noteq> [] \<and> (\<forall>c \<in> set ''END''. isalnum c)"
    by (simp add: isalnum_def)
  have c: "\<not> isalnum (CHR ''_'') \<and> CHR ''_'' \<noteq> NUL"
    by (simp add: isalnum_def NUL_def)
  have f: "[''a.c'' \<mapsto> ?c] ''a.c'' = Some ?c \<and> \<not> bare_trigger False ?c"
    by (simp add: isalnum_def dquote_def)
  have rewritten: "tsPreprocess True zeroed every_path
         [''a.c'' \<mapsto> ''_SID('' @ dquote # ''abcdefgh'' @ dquote # '')''] ''a.c'' ''b.c'' =
       Inr \<lparr>returned = 1,
            files = [''a.c'' \<mapsto> ''_SID('' @ dquote # ''abcdefgh'' @ dquote # '')'',
                     ''b.c'' \<mapsto> ''_0x66a99fa9 /* '' @ dquote # ''abcdefgh'' @ dquote # '' */''],
            printed = [], stored = 29, capacity = 32\<rparr>"
    by (simp add: ts_eval)
  show ?thesis
    using trigger_behind_alnum_is_text [where w = "''END''" and rest = ?rest and out = "[]"
        and c = "CHR ''_''" and fs = "[''a.c'' \<mapsto> ?c]" and path = "''a.c''" and content = ?c
        and char_signed = True and junk = zeroed and writable = every_path
        and out_path = "''b.c''"]
      w c f rewritten
    by simp
qed

section \<open>Where the code leaves the specification\<close>

text \<open>
  C3 fails on the code. In the file \<open>SID("abcdefgh") SI\<close> the first invocation is
  replaced, the blank is copied, and the match of \<open>SI\<close> against \<open>SID(\<close> reaches the NUL:
  the function returns 0 from inside the matching loop (lines 106 to 110) without
  going back over the bytes it matched, so the file written ends behind the blank
  and the bytes \<open>SI\<close> are in no output. With \<open>SJ\<close> at the end, where the match fails at
  a byte that differs, the two bytes are copied.
\<close>

theorem partial_trigger_is_dropped:
  "tsPreprocess char_signed junk every_path
       [''a.c'' \<mapsto> ''SID('' @ dquote # ''abcdefgh'' @ dquote # '') SI'']
       ''a.c'' ''b.c'' =
     Inr \<lparr>returned = 1,
          files = [''a.c'' \<mapsto> ''SID('' @ dquote # ''abcdefgh'' @ dquote # '') SI'',
                   ''b.c'' \<mapsto> ''0x66a99fa9 /* '' @ dquote # ''abcdefgh'' @ dquote # '' */ ''],
          printed = [], stored = 28, capacity = 36\<rparr>
   \<and> tsPreprocess char_signed junk every_path
       [''a.c'' \<mapsto> ''SID('' @ dquote # ''abcdefgh'' @ dquote # '') SJ'']
       ''a.c'' ''b.c'' =
     Inr \<lparr>returned = 1,
          files = [''a.c'' \<mapsto> ''SID('' @ dquote # ''abcdefgh'' @ dquote # '') SJ'',
                   ''b.c'' \<mapsto> ''0x66a99fa9 /* '' @ dquote # ''abcdefgh'' @ dquote # '' */ SJ''],
          printed = [], stored = 30, capacity = 36\<rparr>"
  by (simp add: ts_eval)

text \<open>
  C4 fails on the code. For the 7-byte file \<open>SID("")\<close> the block asked of \<open>malloc\<close> has
  14 bytes; \<open>sprintf\<close> stores the 19 characters of the replacement and a NUL: the
  stores reach 20 bytes from the start of a block of 14.
\<close>

theorem empty_literal_overruns_output:
  "tsPreprocess char_signed junk writable
       [''a.c'' \<mapsto> ''SID('' @ [dquote, dquote] @ '')''] ''a.c'' ''b.c'' =
     Inl (OutputOverrun 20 14)"
  by (simp add: ts_eval)

text \<open>
  C8 fails on the code. For the file \<open>SID("abc\<close>, and for the same file with a backslash
  as its last byte, the loop of lines 187 to 199 never tests for the NUL: it walks
  over the terminating NUL and reads behind the input buffer.
\<close>

theorem unterminated_literal_overruns_input:
  "tsPreprocess char_signed junk writable
       [''a.c'' \<mapsto> ''SID('' @ dquote # ''abc''] ''a.c'' ''b.c'' = Inl InputOverrun
   \<and> tsPreprocess char_signed junk writable
       [''a.c'' \<mapsto> ''SID('' @ dquote # ''abc'' @ [bslash]] ''a.c'' ''b.c'' = Inl InputOverrun"
  by (simp add: ts_eval)

text \<open>
  C5 fails on the code. In the file \<open>int x = SID("a\<close>, NUL, \<open>b");\<close> the literal has the
  three bytes \<open>a\<close>, NUL, \<open>b\<close>. \<open>%.*s\<close> stops at the NUL, so \<open>sprintf\<close> stores a replacement
  whose comment holds \<open>a\<close> only, 20 characters, and the NUL that ends them; the cursor
  then moves by \<open>19 + 3\<close>. The file written holds, behind that comment, the NUL and one
  byte of the block that nothing has stored to since \<open>malloc\<close> (\<open>junk 29\<close>), and not the
  bytes of the literal. The loop of lines 187 to 199 steps over the NUL, at which
  every other loop of the file stops: it is the test that C8 misses. With the
  literal \<open>a_b\<close> in the same place the replacement is the one the claim gives.
\<close>

theorem nul_in_literal_cuts_replacement:
  "tsPreprocess char_signed junk every_path
       [''a.c'' \<mapsto> ''int x = SID('' @ dquote # ''a'' @ NUL # ''b'' @ dquote # '');'']
       ''a.c'' ''b.c'' =
     Inr \<lparr>returned = 1,
          files = [''a.c'' \<mapsto> ''int x = SID('' @ dquote # ''a'' @ NUL # ''b'' @ dquote # '');'',
                   ''b.c'' \<mapsto> ''int x = 0x0b884fe8 /* '' @ dquote # ''a'' @ dquote # '' */'' @
                             [NUL, junk 29] @ '';''],
          printed = [], stored = 31, capacity = 38\<rparr>
   \<and> tsPreprocess char_signed junk every_path
       [''a.c'' \<mapsto> ''int x = SID('' @ dquote # ''a_b'' @ dquote # '');'']
       ''a.c'' ''b.c'' =
     Inr \<lparr>returned = 1,
          files = [''a.c'' \<mapsto> ''int x = SID('' @ dquote # ''a_b'' @ dquote # '');'',
                   ''b.c'' \<mapsto> ''int x = 0x0b885c27 /* '' @ dquote # ''a_b'' @ dquote # '' */;''],
          printed = [], stored = 31, capacity = 38\<rparr>"
  by (simp add: ts_eval upt_conv_Cons numeral_2_eq_2 [symmetric])

text \<open>
  C9 fails on the code. The example of the claim as a file, the 11 bytes
  \<open>SID("a\"b")\<close>: the literal is the four bytes \<open>a\"b\<close>, and \<open>sprintf\<close> stores the 23
  characters of the replacement and a NUL, 24 bytes, into a block of 22 (the defect
  of C4). With a backslash pair whose second byte is NUL, in
  \<open>int x = SID("\\<close>, NUL, \<open>b");\<close>, the scan steps over the NUL (the test that C8 misses),
  the literal and what is hashed are the three bytes backslash, NUL, \<open>b\<close>, but the
  comment ends behind the backslash, and the file written holds the NUL that ends
  what \<open>sprintf\<close> stored and one byte that nothing has stored to. In a file that
  leaves room and has no NUL, \<open>int x = SID("a\"b");\<close>, the hash is the one of the four
  bytes and the comment holds them.
\<close>

theorem escape_pair_cuts_or_overruns:
  "tsPreprocess char_signed junk writable
       [''a.c'' \<mapsto> ''SID('' @ dquote # ''a'' @ bslash # dquote # ''b'' @ dquote # '')'']
       ''a.c'' ''b.c'' = Inl (OutputOverrun 24 22)
   \<and> tsPreprocess char_signed junk every_path
       [''a.c'' \<mapsto> ''int x = SID('' @ dquote # bslash # NUL # ''b'' @ dquote # '');'']
       ''a.c'' ''b.c'' =
     Inr \<lparr>returned = 1,
          files = [''a.c'' \<mapsto> ''int x = SID('' @ dquote # bslash # NUL # ''b'' @ dquote # '');'',
                   ''b.c'' \<mapsto> ''int x = 0x0b883aa3 /* '' @ dquote # bslash # dquote # '' */'' @
                             [NUL, junk 29] @ '';''],
          printed = [], stored = 31, capacity = 38\<rparr>
   \<and> tsPreprocess char_signed junk every_path
       [''a.c'' \<mapsto> ''int x = SID('' @ dquote # ''a'' @ bslash # dquote # ''b'' @ dquote # '');'']
       ''a.c'' ''b.c'' =
     Inr \<lparr>returned = 1,
          files = [''a.c'' \<mapsto> ''int x = SID('' @ dquote # ''a'' @ bslash # dquote # ''b'' @
                             dquote # '');'',
                   ''b.c'' \<mapsto> ''int x = 0x7c93cc66 /* '' @ dquote # ''a'' @ bslash # dquote # ''b'' @
                             dquote # '' */;''],
          printed = [], stored = 32, capacity = 40\<rparr>"
  by (simp add: ts_eval upt_conv_Cons numeral_2_eq_2 [symmetric])

section \<open>What one invocation does\<close>

lemma tsFindQuote_span:
  "literal_span lit \<Longrightarrow> tsFindQuote (lit @ dquote # r) = Inr (dquote # r)"
  by (induction lit rule: literal_span.induct)
    (auto simp: dquote_def bslash_def split: list.splits if_splits)

lemma length_hex8: "length (hex8 h) = 8"
  by (simp add: hex8_def)

lemma length_replacement: "length (replacement h lit) = 19 + length lit"
  by (simp add: replacement_def length_hex8)

lemma tsFormat_no_NUL:
  "NUL \<notin> set lit \<Longrightarrow> tsFormat h (length lit) (lit @ r) = replacement h lit"
proof -
  assume "NUL \<notin> set lit"
  then have "takeWhile (\<lambda>c. c \<noteq> NUL) lit = lit"
    by (induction lit) auto
  then show ?thesis
    by (simp add: tsFormat_def replacement_def)
qed

lemma tsEmit_whole:
  "length text = 19 + bytes \<Longrightarrow> length out + 20 + bytes \<le> cap \<Longrightarrow>
     tsEmit cap junk out hi text bytes = Inr (out @ text, max hi (length out + 20 + bytes))"
  by (simp add: tsEmit_def)

lemma tsSkipInside_spaces:
  "\<forall>c \<in> set ws. isspace c \<Longrightarrow> \<not> isspace q \<Longrightarrow> tsSkipInside (ws @ q # r) = Inr (q # r)"
  by (induction ws) auto

lemma tsInvocation_shape:
  assumes four: "length four = 4"
    and ws1: "\<forall>c \<in> set ws1. isspace c"
    and lit: "literal_span lit"
    and ws2: "\<forall>c \<in> set ws2. isspace c"
    and p: "\<not> isspace p"
  shows "tsInvocation char_signed cap junk
           (four @ ws1 @ dquote # lit @ dquote # ws2 @ p # rest) out hi =
     (case tsEmit cap junk out hi
             (tsFormat (djb2 char_signed lit) (length lit) (lit @ dquote # ws2 @ p # rest))
             (length lit) of
        Inl e \<Rightarrow> Inl e
      | Inr (out', hi') \<Rightarrow>
          if p \<noteq> CHR '')'' then Inr (Aborted NoParen out' hi') else Inr (Next rest out' hi'))"
proof -
  define tail where "tail = ws2 @ p # rest"
  define data where "data = lit @ dquote # tail"
  have q: "\<not> isspace dquote" by (simp add: isspace_def dquote_def)
  have s1: "tsSkipInside (drop 4 (four @ ws1 @ dquote # data)) = Inr (dquote # data)"
    using four tsSkipInside_spaces [OF ws1 q] by simp
  have fq: "tsFindQuote data = Inr (dquote # tail)"
    unfolding data_def using lit by (rule tsFindQuote_span)
  have bytes: "length data - length (dquote # tail) = length lit"
    by (simp add: data_def)
  have tk: "take (length lit) data = lit"
    by (simp add: data_def)
  have s2: "tsSkipInside (drop 1 (dquote # tail)) = Inr (p # rest)"
    unfolding tail_def using tsSkipInside_spaces [OF ws2 p] by simp
  have l4: "\<not> length (four @ ws1 @ dquote # data) < 4"
    using four by simp
  have "tsInvocation char_signed cap junk (four @ ws1 @ dquote # data) out hi =
     (case tsEmit cap junk out hi
             (tsFormat (djb2 char_signed lit) (length lit) data) (length lit) of
        Inl e \<Rightarrow> Inl e
      | Inr (out', hi') \<Rightarrow>
          if p \<noteq> CHR '')'' then Inr (Aborted NoParen out' hi') else Inr (Next rest out' hi'))"
    unfolding tsInvocation_def
    by (simp only: l4 s1 fq bytes tk s2 if_False sum.case list.case Let_def) simp
  then show ?thesis
    by (simp add: data_def tail_def)
qed

lemma tsInvocation_valid:
  assumes "length four = 4"
    and "\<forall>c \<in> set ws1. isspace c"
    and "literal_span lit"
    and "\<forall>c \<in> set ws2. isspace c"
    and "NUL \<notin> set lit"
    and "length out + 20 + length lit \<le> cap"
  shows "tsInvocation char_signed cap junk
           (four @ ws1 @ dquote # lit @ dquote # ws2 @ CHR '')'' # rest) out hi =
         Inr (Next rest (out @ replacement (djb2 char_signed lit) lit)
                (max hi (length out + 20 + length lit)))"
proof -
  have p: "\<not> isspace (CHR '')'')" by (simp add: isspace_def)
  show ?thesis
    by (simp add: tsInvocation_shape [OF assms(1-4) p] tsFormat_no_NUL [OF assms(5)]
        tsEmit_whole [OF _ assms(6)] length_replacement)
qed

lemma tsLoop_found:
  "tsNext_internal data out = Inr (True, data1, out1) \<Longrightarrow> length out1 \<le> cap \<Longrightarrow>
     tsLoop char_signed cap junk data out hi modified =
       (case tsInvocation char_signed cap junk data1 out1 hi of
          Inl e \<Rightarrow> Inl e
        | Inr (Aborted m out2 hi2) \<Rightarrow> Inr (Stopped m out2 hi2)
        | Inr (Next data2 out2 hi2) \<Rightarrow> tsLoop char_signed cap junk data2 out2 hi2 True)"
  by (simp add: tsLoop.simps [of char_signed cap junk data out hi modified])

lemma unat_nibble: "unat (take_bit 4 (d :: 32 word)) < 16"
  using take_bit_nat_less_exp [of 4 "unat d"] by (simp add: unsigned_take_bit_eq)

lemma place_of_nth:
  "distinct s \<Longrightarrow> n < length s \<Longrightarrow> length (takeWhile (\<lambda>d. d \<noteq> s ! n) s) = n"
proof (induction s arbitrary: n)
  case Nil
  then show ?case by simp
next
  case (Cons x xs)
  show ?case
  proof (cases n)
    case 0
    then show ?thesis by simp
  next
    case (Suc m)
    with Cons.prems have m: "m < length xs" and "x \<notin> set xs" and "distinct xs"
      by simp_all
    then have "x \<noteq> xs ! m"
      using nth_mem by metis
    with Suc m Cons.IH [OF \<open>distinct xs\<close> m] show ?thesis
      by simp
  qed
qed

lemma hexvalue_hexdigit: "hexvalue (hexdigit d) = take_bit 4 d"
proof -
  have "distinct ''0123456789abcdef''"
    by simp
  moreover have "unat (take_bit 4 d) < length ''0123456789abcdef''"
    using unat_nibble [of d] by simp
  ultimately have "hexvalue (hexdigit d) = of_nat (unat (take_bit 4 d))"
    unfolding hexdigit_def hexvalue_def by (simp only: place_of_nth)
  then show ?thesis by simp
qed

lemma nibble_step:
  "drop_bit k (h :: 32 word) = drop_bit (4 + k) h * 16 + take_bit 4 (drop_bit k h)"
  using bits_ident [of 4 "drop_bit k h"] by (simp add: push_bit_eq_mult drop_bit_drop_bit)

lemma top_nibble: "take_bit 4 (drop_bit 28 (h :: 32 word)) = drop_bit 28 h"
  by (simp add: take_bit_eq_self_iff_drop_bit_eq_0 drop_bit_drop_bit)

lemma unhex_hex8: "unhex (hex8 h) = h"
proof -
  have "unhex (hex8 h) =
    ((((((take_bit 4 (drop_bit 28 h) * 16 + take_bit 4 (drop_bit 24 h)) * 16 +
      take_bit 4 (drop_bit 20 h)) * 16 + take_bit 4 (drop_bit 16 h)) * 16 +
      take_bit 4 (drop_bit 12 h)) * 16 + take_bit 4 (drop_bit 8 h)) * 16 +
      take_bit 4 (drop_bit 4 h)) * 16 + take_bit 4 (drop_bit 0 h)"
    by (simp add: unhex_def hex8_def hexvalue_hexdigit)
  also have "\<dots> = drop_bit 0 h"
    unfolding top_nibble
    using nibble_step [of 0 h] nibble_step [of 4 h] nibble_step [of 8 h] nibble_step [of 12 h]
      nibble_step [of 16 h] nibble_step [of 20 h] nibble_step [of 24 h]
    by simp
  finally show ?thesis by simp
qed

lemma strlen_terminated: "NUL \<notin> set S \<Longrightarrow> strlen (S @ [NUL]) = Inr (length S)"
proof -
  assume "NUL \<notin> set S"
  then have "takeWhile (\<lambda>c. c \<noteq> NUL) (S @ [NUL]) = S"
    by (induction S) auto
  then show ?thesis by (simp add: strlen_def)
qed

lemma SID_terminated: "NUL \<notin> set S \<Longrightarrow> SID char_signed (S @ [NUL]) = Inr (djb2 char_signed S)"
  by (simp add: SID_def strlen_terminated)

lemma literal_span_plain:
  "dquote \<notin> set S \<Longrightarrow> bslash \<notin> set S \<Longrightarrow> literal_span S"
  by (induction S) auto

lemma tsInvocation_plain:
  assumes "literal_span lit" "NUL \<notin> set lit" "length out + 20 + length lit \<le> cap"
  shows "tsInvocation char_signed cap junk
           (''SID('' @ dquote # lit @ dquote # '')'' @ rest) out hi =
         Inr (Next rest (out @ replacement (djb2 char_signed lit) lit)
                (max hi (length out + 20 + length lit)))"
  using tsInvocation_valid [where four = "''SID(''" and ?ws1.0 = "[]" and ?ws2.0 = "[]"
      and lit = lit and rest = rest and char_signed = char_signed and junk = junk
      and out = out and hi = hi and cap = cap] assms
  by simp

section \<open>Runs that return stay inside the block\<close>

text \<open>
  Whenever \<open>tsPreprocess\<close> returns, every store of the run was inside the block:
  what the stores and the write cursor reach is at most the capacity.
\<close>

lemma length_tsFormat: "length (tsFormat h bytes data) \<le> 19 + bytes"
proof -
  have "length (takeWhile (\<lambda>c. c \<noteq> NUL) (take bytes data)) \<le> length (take bytes data)"
    by (rule length_takeWhile_le)
  then show ?thesis
    by (simp add: tsFormat_def length_hex8)
qed

lemma tsEmit_inside:
  assumes "tsEmit cap junk out hi text bytes = Inr (out', hi')"
    and "hi \<le> cap" and "length text \<le> 19 + bytes"
  shows "length out' \<le> cap \<and> hi' \<le> cap"
  using assms by (auto simp: tsEmit_def split: if_splits)

lemma tsInvocation_inside:
  assumes "tsInvocation char_signed cap junk data out hi = Inr s"
    and "hi \<le> cap" and "length out \<le> cap"
  shows "case s of Aborted m out' hi' \<Rightarrow> length out' \<le> cap \<and> hi' \<le> cap
                 | Next d out' hi' \<Rightarrow> length out' \<le> cap \<and> hi' \<le> cap"
  using assms
  by (auto simp: tsInvocation_def Let_def
      split: if_splits sum.splits list.splits prod.splits
      dest!: tsEmit_inside [OF _ _ length_tsFormat])

lemma tsLoop_inside:
  "tsLoop char_signed cap junk data out hi modified = Inr e \<Longrightarrow> hi \<le> cap \<Longrightarrow>
     (case e of Finished out' m' hi' \<Rightarrow> length out' \<le> cap \<and> hi' \<le> cap
              | Stopped mm out' hi' \<Rightarrow> length out' \<le> cap \<and> hi' \<le> cap)"
proof (induction char_signed cap junk data out hi modified rule: tsLoop.induct)
  case (1 char_signed cap junk data out hi modified)
  from "1.prems"(1) obtain found data1 out1 where
    scan: "tsNext_internal data out = Inr (found, data1, out1)" and
    inside: "length out1 \<le> cap"
    by (auto simp: tsLoop.simps [of char_signed cap junk data out hi modified]
        split: sum.splits prod.splits if_splits)
  show ?case
  proof (cases found)
    case False
    with scan inside "1.prems" show ?thesis
      by (auto simp: tsLoop.simps [of char_signed cap junk data out hi modified])
  next
    case True
    with scan inside "1.prems"(1) obtain s where
      inv: "tsInvocation char_signed cap junk data1 out1 hi = Inr s"
      by (auto simp: tsLoop.simps [of char_signed cap junk data out hi modified]
          split: sum.splits)
    note bound = tsInvocation_inside [OF inv "1.prems"(2) inside]
    show ?thesis
    proof (cases s)
      case (Aborted m out2 hi2)
      with scan inside True inv "1.prems"(1) bound show ?thesis
        by (auto simp: tsLoop.simps [of char_signed cap junk data out hi modified])
    next
      case (Next data2 out2 hi2)
      with scan inside True inv "1.prems"(1) have
        "tsLoop char_signed cap junk data2 out2 hi2 True = Inr e"
        by (simp add: tsLoop.simps [of char_signed cap junk data out hi modified])
      moreover from Next bound have "hi2 \<le> cap" by simp
      ultimately show ?thesis
        using "1.IH" scan inside True inv Next
        by auto
    qed
  qed
qed


lemma tsPreprocess_inside:
  assumes "tsPreprocess char_signed junk writable fs path out_path = Inr r"
  shows "stored r \<le> capacity r"
proof (cases "fs path")
  case None
  with assms show ?thesis
    by (auto simp: tsPreprocess_def)
next
  case (Some content)
  with assms obtain e where
    loop: "tsLoop char_signed (length content * 2) junk (content @ [NUL]) [] 0 False = Inr e"
    by (auto simp: tsPreprocess_def Let_def split: sum.splits)
  have "case e of Finished out' m' hi' \<Rightarrow> length out' \<le> length content * 2 \<and> hi' \<le> length content * 2
                | Stopped mm out' hi' \<Rightarrow> length out' \<le> length content * 2 \<and> hi' \<le> length content * 2"
    using loop by (rule tsLoop_inside) simp
  with assms Some loop show ?thesis
    by (auto simp: tsPreprocess_def Let_def split: loop_end.splits if_splits)
qed

section \<open>The way to the first invocation\<close>

text \<open>
  The scanner on \<open>lead\<close>, \<open>SID(\<close> and anything behind them: when \<open>lead\<close> has no NUL and
  no bare trigger, also none that takes bytes of the \<open>SID\<close> behind it, and the \<open>SID(\<close>
  behind it is bare, the scanner copies \<open>lead\<close> and returns 1 at that \<open>SID(\<close>. \<open>b\<close> tells
  whether the byte before \<open>lead\<close> is alphanumeric; if so, \<open>lead\<close> starts with a byte
  that is not.
\<close>

lemma tsNext_internal_at_trigger:
  "tsNext_internal (''SID('' @ rest) out = Inr (True, ''SID('' @ rest, out)"
proof -
  have "tsNext_round (''SID('' @ rest) out = Inr (Return True (''SID('' @ rest) out)"
    by (simp add: tsNext_round_def NUL_def isspace_def isalnum_def)
  then show ?thesis by (rule tsNext_internal_Return)
qed

lemma bare_trigger_suffix:
  "bare_trigger (isalnum (last xs)) ys \<Longrightarrow> xs \<noteq> [] \<Longrightarrow> bare_trigger b (xs @ ys)"
proof (induction xs arbitrary: b)
  case Nil
  then show ?case by simp
next
  case (Cons x xs)
  show ?case
  proof (cases "xs = []")
    case True
    with Cons.prems show ?thesis by simp
  next
    case False
    with Cons.prems have "bare_trigger (isalnum (last xs)) ys" by simp
    then have "bare_trigger (isalnum x) (xs @ ys)"
      using False by (rule Cons.IH)
    then show ?thesis by simp
  qed
qed

lemma tsMatch_Mismatch:
  "length m \<le> length data \<Longrightarrow> NUL \<notin> set (take (length m) data) \<Longrightarrow>
     take (length m) data \<noteq> m \<Longrightarrow> tsMatch data m = Inr Mismatch"
  by (induction data m rule: tsMatch.induct) auto

lemma dropWhile_run:
  "\<forall>c \<in> set xs. P c \<Longrightarrow> \<not> P y \<Longrightarrow> dropWhile P (xs @ y # ys) = y # ys"
  by (induction xs) auto

lemma takeWhile_run:
  "\<forall>c \<in> set xs. P c \<Longrightarrow> \<not> P y \<Longrightarrow> takeWhile P (xs @ y # ys) = xs"
  by (induction xs) auto

lemma tsSkipWhite_internal_run:
  "\<forall>c \<in> set ws. isspace c \<Longrightarrow> \<not> isspace y \<Longrightarrow>
     tsSkipWhite_internal (ws @ y # ys) out = Inr (y # ys, out @ ws)"
  by (simp add: tsSkipWhite_internal_eq dropWhile_run takeWhile_run)

lemma tsCopyAlnum_run:
  "\<forall>c \<in> set run. isalnum c \<Longrightarrow> \<not> isalnum y \<Longrightarrow>
     tsCopyAlnum (run @ y # ys) out = Inr (y # ys, out @ run)"
  by (simp add: tsCopyAlnum_eq dropWhile_run takeWhile_run)

lemma hd_spaces_not_NUL:
  "\<forall>c \<in> set ws. isspace c \<Longrightarrow> y \<noteq> NUL \<Longrightarrow> hd (ws @ y # ys) \<noteq> NUL"
  using isspace_not_NUL by (cases ws) auto

lemma tsNext_round_other:
  assumes ws: "\<forall>c \<in> set ws. isspace c"
    and c1: "\<not> isspace c1" "\<not> isalnum c1" "c1 \<noteq> NUL"
  shows "tsNext_round (ws @ c1 # r) out = Inr (Again r (out @ ws @ [c1]))"
  using hd_spaces_not_NUL [OF ws c1(3), of r] c1
  by (simp add: tsNext_round_def list.case_eq_if tsSkipWhite_internal_run [OF ws c1(1)])

lemma tsNext_round_word:
  assumes ws: "\<forall>c \<in> set ws. isspace c"
    and run: "run \<noteq> []" "\<forall>c \<in> set run. isalnum c"
    and c2: "\<not> isalnum c2"
    and m: "tsMatch (run @ c2 # r) ''SID('' = Inr Mismatch"
  shows "tsNext_round (ws @ run @ c2 # r) out = Inr (Again (c2 # r) (out @ ws @ run))"
proof -
  obtain c1 r1 where r1: "run = c1 # r1"
    using run(1) by (cases run) auto
  with run(2) have a: "isalnum c1" by simp
  then have c1: "\<not> isspace c1" "c1 \<noteq> NUL"
    using isspace_not_isalnum isalnum_not_NUL by blast+
  define d1 where "d1 = r1 @ c2 # r"
  have data: "ws @ run @ c2 # r = ws @ c1 # d1"
    by (simp add: r1 d1_def)
  have m': "tsMatch (c1 # d1) ''SID('' = Inr Mismatch"
    using m by (simp add: r1 d1_def)
  have copy: "tsCopyAlnum (c1 # d1) (out @ ws) = Inr (c2 # r, (out @ ws) @ run)"
    using tsCopyAlnum_run [OF run(2) c2, of r "out @ ws"] by (simp add: r1 d1_def)
  show ?thesis
    unfolding data
    using hd_spaces_not_NUL [OF ws c1(2), of d1] a c1
    by (simp add: tsNext_round_def list.case_eq_if tsSkipWhite_internal_run [OF ws c1(1)]
        m' copy del: tsMatch.simps tsCopyAlnum.simps)
qed

lemma tsNext_round_trigger:
  assumes ws: "\<forall>c \<in> set ws. isspace c"
  shows "tsNext_round (ws @ ''SID('' @ rest) out = Inr (Return True (''SID('' @ rest) (out @ ws))"
proof -
  have S: "\<not> isspace (CHR ''S'')" "isalnum (CHR ''S'')" "CHR ''S'' \<noteq> NUL"
    by (simp_all add: isspace_def isalnum_def NUL_def)
  define d1 where "d1 = ''ID('' @ rest"
  have data: "ws @ ''SID('' @ rest = ws @ CHR ''S'' # d1"
    by (simp add: d1_def)
  have m: "tsMatch (CHR ''S'' # d1) ''SID('' = Inr Matched"
    by (simp add: d1_def NUL_def)
  have "tsNext_round (ws @ CHR ''S'' # d1) out = Inr (Return True (CHR ''S'' # d1) (out @ ws))"
    using hd_spaces_not_NUL [OF ws S(3), of d1] S
    by (simp add: tsNext_round_def list.case_eq_if tsSkipWhite_internal_run [OF ws S(1)]
        m del: tsMatch.simps)
  then show ?thesis
    by (simp add: d1_def)
qed

lemma split_run:
  "\<exists>run rest. xs = run @ rest \<and> (\<forall>c \<in> set run. P c) \<and> (rest = [] \<or> \<not> P (hd rest))"
proof -
  have "xs = takeWhile P xs @ dropWhile P xs"
    by simp
  moreover have "\<forall>c \<in> set (takeWhile P xs). P c"
    by (auto dest: set_takeWhileD)
  moreover have "dropWhile P xs = [] \<or> \<not> P (hd (dropWhile P xs))"
    using hd_dropWhile [of P xs] by blast
  ultimately show ?thesis
    by blast
qed

lemma take4_trigger:
  "xs \<noteq> [] \<Longrightarrow> take 4 (xs @ ''SID('' @ rest) = take 4 (xs @ ''SID'')"
proof -
  assume "xs \<noteq> []"
  then have "4 \<le> length (xs @ ''SID'')"
    by (cases xs) auto
  then have "take 4 ((xs @ ''SID'') @ ''('' @ rest) = take 4 (xs @ ''SID'')"
    by (rule take_of_long_prefix)
  then show ?thesis by simp
qed

lemma bare_trigger_here:
  "xs \<noteq> [] \<Longrightarrow> take 4 (xs @ ''SID('' @ rest) = ''SID('' \<Longrightarrow> bare_trigger False (xs @ ''SID'')"
proof -
  assume ne: "xs \<noteq> []" and "take 4 (xs @ ''SID('' @ rest) = ''SID(''"
  then have t: "take 4 (xs @ ''SID'') = ''SID(''"
    using take4_trigger [of xs rest] by simp
  from ne obtain x xs' where "xs = x # xs'" by (cases xs) auto
  with t show ?thesis by simp
qed

lemma tsNext_internal_to_trigger:
  assumes "NUL \<notin> set lead"
    and "\<not> bare_trigger b (lead @ ''SID'')"
    and "lead = [] \<or> \<not> isalnum (last lead)"
    and "b \<longrightarrow> lead \<noteq> [] \<and> \<not> isalnum (hd lead)"
  shows "tsNext_internal (lead @ ''SID('' @ rest) out = Inr (True, ''SID('' @ rest, out @ lead)"
  using assms
proof (induction "length lead" arbitrary: lead b out rule: less_induct)
  case less
  define T where "T = ''SID('' @ rest"
  obtain ws p1 where lead: "lead = ws @ p1" and ws: "\<forall>c \<in> set ws. isspace c"
    and p1: "p1 = [] \<or> \<not> isspace (hd p1)"
    using split_run [of lead isspace] by blast
  have ws_edge: "\<not> isalnum (last ws)" if "ws \<noteq> []"
  proof -
    from that have "last ws \<in> set ws" by simp
    with ws have "isspace (last ws)" by blast
    then show ?thesis by (rule isspace_not_isalnum)
  qed
  have goal: "tsNext_internal (lead @ T) out = Inr (True, T, out @ lead)"
  proof (cases p1)
    case Nil
    have "tsNext_round (ws @ T) out = Inr (Return True T (out @ ws))"
      unfolding T_def using ws by (rule tsNext_round_trigger)
    then have "tsNext_internal (ws @ T) out = Inr (True, T, out @ ws)"
      by (rule tsNext_internal_Return)
    with lead Nil show ?thesis by simp
  next
    case (Cons c1 r1)
    with p1 have sp: "\<not> isspace c1" by simp
    have lead1: "lead = ws @ c1 # r1"
      using lead Cons by simp
    have nul1: "c1 \<noteq> NUL"
      using less.prems(1) unfolding lead1 by auto
    have edge: "\<not> isalnum (last (c1 # r1))"
      using less.prems(3) unfolding lead1 by simp
    show ?thesis
    proof (cases "isalnum c1")
      case False
      have "tsNext_round (ws @ c1 # (r1 @ T)) out = Inr (Again (r1 @ T) (out @ ws @ [c1]))"
        using ws sp False nul1 by (rule tsNext_round_other)
      then have step: "tsNext_internal (ws @ c1 # (r1 @ T)) out =
          tsNext_internal (r1 @ T) (out @ ws @ [c1])"
        by (rule tsNext_internal_Again)
      have shorter: "length r1 < length lead"
        unfolding lead1 by simp
      have nul: "NUL \<notin> set r1"
        using less.prems(1) unfolding lead1 by simp
      have none: "\<not> bare_trigger False (r1 @ ''SID'')"
      proof
        assume "bare_trigger False (r1 @ ''SID'')"
        with False have "bare_trigger (isalnum (last (ws @ [c1]))) (r1 @ ''SID'')"
          by simp
        then have "bare_trigger b ((ws @ [c1]) @ r1 @ ''SID'')"
          by (rule bare_trigger_suffix) simp
        with less.prems(2) show False
          unfolding lead1 by simp
      qed
      have last_r1: "r1 = [] \<or> \<not> isalnum (last r1)"
        using edge by (cases "r1 = []") simp_all
      have "tsNext_internal (r1 @ T) (out @ ws @ [c1]) = Inr (True, T, (out @ ws @ [c1]) @ r1)"
        using less.hyps [OF shorter nul none last_r1, of "out @ ws @ [c1]"]
        unfolding T_def by simp
      with step show ?thesis
        unfolding lead1 by simp
    next
      case True
      obtain run p2 where p1r: "c1 # r1 = run @ p2" and run: "\<forall>c \<in> set run. isalnum c"
        and p2: "p2 = [] \<or> \<not> isalnum (hd p2)"
        using split_run [of "c1 # r1" isalnum] by blast
      have run_ne: "run \<noteq> []"
      proof
        assume "run = []"
        with p1r have "p2 = c1 # r1" by simp
        with p2 True show False by simp
      qed
      have p2_ne: "p2 \<noteq> []"
      proof
        assume "p2 = []"
        with p1r have "run = c1 # r1" by simp
        with run have "isalnum (last (c1 # r1))"
          by (metis last_in_set list.distinct(1))
        with edge show False by simp
      qed
      then obtain c2 r2 where p2c: "p2 = c2 # r2"
        by (cases p2) auto
      with p2 have c2: "\<not> isalnum c2" by simp
      have lead2: "lead = ws @ run @ c2 # r2"
        using lead1 p1r p2c by simp
      have last_run: "isalnum (last run)"
        using run run_ne by simp
      have hd_run: "isalnum (hd run)"
        using run run_ne by simp
      define word where "word = run @ c2 # r2"
      have word_ne: "word \<noteq> []"
        by (simp add: word_def)
      have word_nul: "NUL \<notin> set word"
        using less.prems(1) unfolding lead2 word_def by simp
      have no_match: "take 4 (word @ T) \<noteq> ''SID(''"
      proof
        assume "take 4 (word @ T) = ''SID(''"
        then have here: "bare_trigger False (word @ ''SID'')"
          unfolding T_def using word_ne bare_trigger_here by blast
        have "bare_trigger b (lead @ ''SID'')"
        proof (cases "ws = []")
          case True
          with lead2 have l: "lead = word" by (simp add: word_def)
          then have "hd lead = hd run"
            using run_ne by (simp add: word_def)
          with less.prems(4) hd_run have "\<not> b" by auto
          with here l show ?thesis by simp
        next
          case False
          then have "\<not> isalnum (last ws)" by (rule ws_edge)
          with here have "bare_trigger (isalnum (last ws)) (word @ ''SID'')"
            by simp
          then have "bare_trigger b (ws @ word @ ''SID'')"
            using False by (rule bare_trigger_suffix)
          then show ?thesis
            unfolding lead2 word_def by simp
        qed
        with less.prems(2) show False by simp
      qed
      have "take 4 (word @ T) = take 4 (word @ ''SID'')"
        unfolding T_def using word_ne by (rule take4_trigger)
      moreover have "set (take 4 (word @ ''SID'')) \<subseteq> set (word @ ''SID'')"
        by (rule set_take_subset)
      moreover have "NUL \<notin> set (word @ ''SID'')"
        using word_nul by (simp add: NUL_def)
      ultimately have no_nul: "NUL \<notin> set (take 4 (word @ T))"
        by auto
      have l4: "length ''SID('' = 4"
        by simp
      have long: "length ''SID('' \<le> length (word @ T)"
        by (simp add: T_def)
      have "tsMatch (word @ T) ''SID('' = Inr Mismatch"
        using long no_nul no_match unfolding l4 [symmetric] by (rule tsMatch_Mismatch)
      then have m: "tsMatch (run @ c2 # (r2 @ T)) ''SID('' = Inr Mismatch"
        by (simp add: word_def)
      have "tsNext_round (ws @ run @ c2 # (r2 @ T)) out =
          Inr (Again (c2 # (r2 @ T)) (out @ ws @ run))"
        using ws run_ne run c2 m by (rule tsNext_round_word)
      then have step: "tsNext_internal (ws @ run @ c2 # (r2 @ T)) out =
          tsNext_internal (c2 # (r2 @ T)) (out @ ws @ run)"
        by (rule tsNext_internal_Again)
      have shorter: "length (c2 # r2) < length lead"
        unfolding lead2 using run_ne by simp
      have nul: "NUL \<notin> set (c2 # r2)"
        using less.prems(1) unfolding lead2 by simp
      have none: "\<not> bare_trigger True ((c2 # r2) @ ''SID'')"
      proof
        assume a: "bare_trigger True ((c2 # r2) @ ''SID'')"
        have "isalnum (last (ws @ run))"
          using last_run run_ne by simp
        then have "bare_trigger (isalnum (last (ws @ run))) ((c2 # r2) @ ''SID'')"
          using a by (simp only:)
        then have "bare_trigger b ((ws @ run) @ (c2 # r2) @ ''SID'')"
          by (rule bare_trigger_suffix) (simp add: run_ne)
        with less.prems(2) show False
          unfolding lead2 by simp
      qed
      have last_p2: "c2 # r2 = [] \<or> \<not> isalnum (last (c2 # r2))"
        using less.prems(3) unfolding lead2 by simp
      have hd_p2: "True \<longrightarrow> c2 # r2 \<noteq> [] \<and> \<not> isalnum (hd (c2 # r2))"
        using c2 by simp
      have "tsNext_internal ((c2 # r2) @ T) (out @ ws @ run) =
          Inr (True, T, (out @ ws @ run) @ c2 # r2)"
        using less.hyps [OF shorter nul none last_p2 hd_p2, of "out @ ws @ run"]
        unfolding T_def by simp
      with step show ?thesis
        unfolding lead2 by simp
    qed
  qed
  then show ?case
    unfolding T_def .
qed

section \<open>The embedded hash\<close>

lemma tsPreprocess_Finished:
  "fs path = Some content \<Longrightarrow>
     tsLoop char_signed (length content * 2) junk (content @ [NUL]) [] 0 False =
       Inr (Finished out True hi) \<Longrightarrow>
     writable out_path \<Longrightarrow>
     tsPreprocess char_signed junk writable fs path out_path =
       Inr \<lparr>returned = 1, files = fs(out_path \<mapsto> out), printed = [],
            stored = max hi (length out), capacity = length content * 2\<rparr>"
  by (simp add: tsPreprocess_def)

text \<open>
  C1. For every byte sequence \<open>S\<close> without a double quote, a backslash or a NUL, the
  run-time \<open>SID\<close> on the string \<open>S\<close> returns a hash \<open>h\<close>, the eight digits of \<open>h\<close> read
  back give \<open>h\<close>, and \<open>h\<close> is the hash \<open>tsPreprocess\<close> embeds for \<open>SID("S")\<close>. Wherever
  the scanner stops at that invocation with room in the block for the replacement
  and the NUL behind it, the loop goes on behind the invocation with \<open>0x\<close>, the eight
  digits of \<open>h\<close> and the comment appended to the output. For the whole file: when
  the invocation stands behind a text \<open>lead\<close> without a NUL and without a bare
  trigger, at the start of the file or behind a byte that is not alphanumeric, no
  trigger behind the invocation is bare, the file has 13 bytes or more (the
  invocation has 7 besides \<open>S\<close>) and \<open>out_path\<close> can be opened for writing, then
  \<open>tsPreprocess\<close> returns 1 and writes \<open>lead\<close>, that replacement and the bytes the
  scanner copies behind the invocation, with every store inside the block. (In a
  shorter file the replacement does not fit the block: that is C4.)
\<close>

theorem runtime_hash_is_embedded_hash:
  assumes "dquote \<notin> set S" and "bslash \<notin> set S" and "NUL \<notin> set S"
  shows "\<exists>h. SID char_signed (S @ [NUL]) = Inr h \<and> unhex (hex8 h) = h
    \<and> (tsNext_internal data out = Inr (True, ''SID('' @ dquote # S @ dquote # '')'' @ rest, out1)
         \<and> length out1 + 20 + length S \<le> cap
         \<longrightarrow> tsLoop char_signed cap junk data out hi modified =
             tsLoop char_signed cap junk rest
               (out1 @ ''0x'' @ hex8 h @ '' /* '' @ dquote # S @ dquote # '' */'')
               (max hi (length out1 + 20 + length S)) True)
    \<and> (fs path = Some (lead @ ''SID('' @ dquote # S @ dquote # '')'' @ behind)
         \<and> NUL \<notin> set lead \<and> \<not> bare_trigger False (lead @ ''SID'')
         \<and> (lead = [] \<or> \<not> isalnum (last lead))
         \<and> \<not> bare_trigger False behind
         \<and> 6 \<le> length lead + length S + length behind
         \<and> writable out_path
         \<longrightarrow> (\<exists>r tail more.
               tsPreprocess char_signed junk writable fs path out_path = Inr r \<and>
               returned r = 1 \<and> behind = tail @ more \<and>
               files r = fs(out_path \<mapsto>
                 lead @ ''0x'' @ hex8 h @ '' /* '' @ dquote # S @ dquote # '' */'' @ tail) \<and>
               printed r = [] \<and> stored r \<le> capacity r))"
proof -
  let ?h = "djb2 char_signed S"
  define emitted where "emitted = ''0x'' @ hex8 ?h @ '' /* '' @ dquote # S @ dquote # '' */''"
  have span: "literal_span S"
    using assms(1,2) by (rule literal_span_plain)
  have repl: "replacement ?h S = emitted"
    by (simp add: replacement_def emitted_def)
  have len: "length emitted = 19 + length S"
    by (simp add: emitted_def length_hex8)
  have inv: "tsInvocation char_signed cap' junk
        (''SID('' @ dquote # S @ dquote # '')'' @ rest') out' hi' =
      Inr (Next rest' (out' @ emitted) (max hi' (length out' + 20 + length S)))"
    if "length out' + 20 + length S \<le> cap'" for rest' out' hi' cap'
    using tsInvocation_plain [OF span assms(3) that] by (simp only: repl)
  have runtime: "SID char_signed (S @ [NUL]) = Inr ?h"
    using assms(3) by (rule SID_terminated)
  have digits: "unhex (hex8 ?h) = ?h"
    by (rule unhex_hex8)
  have anywhere: "tsLoop char_signed cap junk data out hi modified =
      tsLoop char_signed cap junk rest (out1 @ emitted) (max hi (length out1 + 20 + length S)) True"
    if found: "tsNext_internal data out =
        Inr (True, ''SID('' @ dquote # S @ dquote # '')'' @ rest, out1)"
      and room: "length out1 + 20 + length S \<le> cap"
    for data out hi modified rest out1 cap
  proof -
    from room have "length out1 \<le> cap" by simp
    then show ?thesis
      by (simp only: tsLoop_found [OF found] inv [OF room] sum.case step.case)
  qed
  have whole: "fs path = Some (lead @ ''SID('' @ dquote # S @ dquote # '')'' @ behind)
         \<and> NUL \<notin> set lead \<and> \<not> bare_trigger False (lead @ ''SID'')
         \<and> (lead = [] \<or> \<not> isalnum (last lead))
         \<and> \<not> bare_trigger False behind
         \<and> 6 \<le> length lead + length S + length behind
         \<and> writable out_path
         \<longrightarrow> (\<exists>r tail more.
               tsPreprocess char_signed junk writable fs path out_path = Inr r \<and>
               returned r = 1 \<and> behind = tail @ more \<and>
               files r = fs(out_path \<mapsto>
                 lead @ ''0x'' @ hex8 ?h @ '' /* '' @ dquote # S @ dquote # '' */'' @ tail) \<and>
               printed r = [] \<and> stored r \<le> capacity r)"
  proof (intro impI, elim conjE)
    define content where "content = lead @ ''SID('' @ dquote # S @ dquote # '')'' @ behind"
    define block where "block = length content * 2"
    assume "fs path = Some (lead @ ''SID('' @ dquote # S @ dquote # '')'' @ behind)"
    then have opened: "fs path = Some content"
      by (simp only: content_def)
    assume lead: "NUL \<notin> set lead" "\<not> bare_trigger False (lead @ ''SID'')"
      "lead = [] \<or> \<not> isalnum (last lead)"
    assume behind: "\<not> bare_trigger False behind"
    assume long: "6 \<le> length lead + length S + length behind"
    assume writable: "writable out_path"
    have size: "length content = length lead + 7 + length S + length behind"
      by (simp add: content_def)
    have data: "content @ [NUL] =
        lead @ ''SID('' @ (dquote # S @ dquote # '')'' @ behind @ [NUL])"
      by (simp add: content_def)
    have b: "False \<longrightarrow> lead \<noteq> [] \<and> \<not> isalnum (hd lead)"
      by simp
    have "tsNext_internal (lead @ ''SID('' @ (dquote # S @ dquote # '')'' @ behind @ [NUL])) [] =
        Inr (True, ''SID('' @ (dquote # S @ dquote # '')'' @ behind @ [NUL]), [] @ lead)"
      using lead b by (rule tsNext_internal_to_trigger)
    then have first: "tsNext_internal (content @ [NUL]) [] =
        Inr (True, ''SID('' @ dquote # S @ dquote # '')'' @ (behind @ [NUL]), lead)"
      unfolding data by simp
    have room: "length lead + 20 + length S \<le> block"
      using long by (simp add: block_def size)
    define hi where "hi = max 0 (length lead + 20 + length S)"
    have one: "tsLoop char_signed block junk (content @ [NUL]) [] 0 False =
        tsLoop char_signed block junk (behind @ [NUL]) (lead @ emitted) hi True"
      unfolding hi_def using first room by (rule anywhere)
    obtain d tail more where
      second: "tsNext_internal (behind @ [NUL]) (lead @ emitted) =
          Inr (False, d, (lead @ emitted) @ tail)" and
      tail: "behind = tail @ more"
      using tsNext_internal_no_bare_trigger [OF behind] by blast
    have "length tail \<le> length behind"
      by (simp add: tail)
    then have room2: "length ((lead @ emitted) @ tail) \<le> block"
      using long by (simp add: block_def size len)
    have two: "tsLoop char_signed block junk (behind @ [NUL]) (lead @ emitted) hi True =
        Inr (Finished ((lead @ emitted) @ tail) True hi)"
      using second room2 by (rule tsLoop_not_found)
    have loop: "tsLoop char_signed (length content * 2) junk (content @ [NUL]) [] 0 False =
        Inr (Finished ((lead @ emitted) @ tail) True hi)"
      using one two by (simp only: block_def)
    define r where "r = \<lparr>returned = 1, files = fs(out_path \<mapsto> (lead @ emitted) @ tail),
        printed = [], stored = max hi (length ((lead @ emitted) @ tail)),
        capacity = length content * 2\<rparr>"
    have run: "tsPreprocess char_signed junk writable fs path out_path = Inr r"
      unfolding r_def using opened loop writable by (rule tsPreprocess_Finished)
    have written: "(lead @ emitted) @ tail =
        lead @ ''0x'' @ hex8 ?h @ '' /* '' @ dquote # S @ dquote # '' */'' @ tail"
      by (simp add: emitted_def)
    have "returned r = 1" and "printed r = []"
      and "files r = fs(out_path \<mapsto> (lead @ emitted) @ tail)"
      by (simp_all add: r_def)
    moreover have "stored r \<le> capacity r"
      using room room2 by (simp add: r_def hi_def block_def)
    ultimately show "\<exists>r tail more.
        tsPreprocess char_signed junk writable fs path out_path = Inr r \<and>
        returned r = 1 \<and> behind = tail @ more \<and>
        files r = fs(out_path \<mapsto>
          lead @ ''0x'' @ hex8 ?h @ '' /* '' @ dquote # S @ dquote # '' */'' @ tail) \<and>
        printed r = [] \<and> stored r \<le> capacity r"
      using run tail unfolding written by blast
  qed
  have there: "tsNext_internal data out =
        Inr (True, ''SID('' @ dquote # S @ dquote # '')'' @ rest, out1)
      \<and> length out1 + 20 + length S \<le> cap
      \<longrightarrow> tsLoop char_signed cap junk data out hi modified =
          tsLoop char_signed cap junk rest
            (out1 @ ''0x'' @ hex8 ?h @ '' /* '' @ dquote # S @ dquote # '' */'')
            (max hi (length out1 + 20 + length S)) True"
    using anywhere [of data out rest out1 cap hi modified] unfolding emitted_def by blast
  from runtime digits there whole show ?thesis
    by blast
qed

theorem runtime_hash_is_embedded_hash_witness:
  "\<exists>h. SID True (''hello'' @ [NUL]) = Inr h \<and> h = 261238937
    \<and> (\<exists>r tail more.
          tsPreprocess True zeroed every_path
            [''a.c'' \<mapsto> ''x = SID('' @ dquote # ''hello'' @ dquote # '');''] ''a.c'' ''b.c'' = Inr r \<and>
          returned r = 1 \<and> '';'' = tail @ more \<and>
          files r = [''a.c'' \<mapsto> ''x = SID('' @ dquote # ''hello'' @ dquote # '');'',
                     ''b.c'' \<mapsto> ''x = '' @ ''0x'' @ hex8 h @ '' /* '' @ dquote # ''hello'' @
                                dquote # '' */'' @ tail] \<and>
          printed r = [] \<and> stored r \<le> capacity r)
    \<and> tsPreprocess True zeroed every_path
         [''a.c'' \<mapsto> ''x = SID('' @ dquote # ''hello'' @ dquote # '');''] ''a.c'' ''b.c'' =
       Inr \<lparr>returned = 1,
            files = [''a.c'' \<mapsto> ''x = SID('' @ dquote # ''hello'' @ dquote # '');'',
                     ''b.c'' \<mapsto> ''x = 0x0f923099 /* '' @ dquote # ''hello'' @ dquote # '' */;''],
            printed = [], stored = 29, capacity = 34\<rparr>"
proof -
  let ?c = "''x = '' @ ''SID('' @ dquote # ''hello'' @ dquote # '')'' @ '';''"
  have S: "dquote \<notin> set ''hello''" "bslash \<notin> set ''hello''" "NUL \<notin> set ''hello''"
    by (simp_all add: dquote_def bslash_def NUL_def)
  have o: "[''a.c'' \<mapsto> ?c] ''a.c'' = Some ?c"
    by simp
  have l: "NUL \<notin> set ''x = '' \<and> \<not> bare_trigger False (''x = '' @ ''SID'') \<and>
      (''x = '' = [] \<or> \<not> isalnum (last ''x = '')) \<and> \<not> bare_trigger False '';'' \<and>
      6 \<le> length ''x = '' + length ''hello'' + length '';'' \<and> every_path ''b.c''"
    by (simp add: NUL_def isalnum_def every_path_def)
  have v: "SID True (''hello'' @ [NUL]) = Inr 261238937"
    by (simp add: SID_def strlen_def djb2_def char_to_unsigned_def NUL_def)
  have e: "tsPreprocess True zeroed every_path
         [''a.c'' \<mapsto> ''x = SID('' @ dquote # ''hello'' @ dquote # '');''] ''a.c'' ''b.c'' =
       Inr \<lparr>returned = 1,
            files = [''a.c'' \<mapsto> ''x = SID('' @ dquote # ''hello'' @ dquote # '');'',
                     ''b.c'' \<mapsto> ''x = 0x0f923099 /* '' @ dquote # ''hello'' @ dquote # '' */;''],
            printed = [], stored = 29, capacity = 34\<rparr>"
    by (simp add: ts_eval)
  from runtime_hash_is_embedded_hash [OF S, where char_signed = True and junk = zeroed
      and writable = every_path and fs = "[''a.c'' \<mapsto> ?c]" and path = "''a.c''"
      and out_path = "''b.c''" and lead = "''x = ''" and behind = "'';''"] o l v
  have "\<exists>r tail more.
          tsPreprocess True zeroed every_path [''a.c'' \<mapsto> ?c] ''a.c'' ''b.c'' = Inr r \<and>
          returned r = 1 \<and> '';'' = tail @ more \<and>
          files r = [''a.c'' \<mapsto> ?c,
                     ''b.c'' \<mapsto> ''x = '' @ ''0x'' @ hex8 261238937 @ '' /* '' @ dquote # ''hello'' @
                                dquote # '' */'' @ tail] \<and>
          printed r = [] \<and> stored r \<le> capacity r"
    by auto
  with v e show ?thesis
    by simp
qed

section \<open>Malformed invocations\<close>

text \<open>
  Where the scanner stops at a \<open>SID(\<close> with its cursor inside the block: a byte other
  than a double quote behind the blanks ends the loop at the first check, with
  nothing stored; a literal without NUL that is followed, behind blanks, by a byte
  other than \<open>)\<close> ends the loop at the second check, when its replacement and the NUL
  behind it fit the block.
\<close>

lemma tsInvocation_not_a_string:
  assumes "length four = 4" and "\<forall>c \<in> set ws. isspace c" and "\<not> isspace q" and "q \<noteq> dquote"
  shows "tsInvocation char_signed cap junk (four @ ws @ q # rest) out hi =
         Inr (Aborted NotAString out hi)"
  using assms tsSkipInside_spaces [of ws q rest]
  by (simp add: tsInvocation_def)

lemma tsLoop_malformed:
  assumes found: "tsNext_internal data out = Inr (True, ''SID('' @ ws @ tail, out1)"
    and ws: "\<forall>c \<in> set ws. isspace c"
    and inside: "length out1 \<le> cap"
  shows "(\<not> isspace q \<and> q \<noteq> dquote \<and> tail = q # rest \<longrightarrow>
           tsLoop char_signed cap junk data out hi modified = Inr (Stopped NotAString out1 hi))
       \<and> (literal_span lit \<and> NUL \<notin> set lit \<and> (\<forall>c \<in> set ws2. isspace c) \<and>
            \<not> isspace p \<and> p \<noteq> CHR '')'' \<and> tail = dquote # lit @ dquote # ws2 @ p # rest \<and>
            length out1 + 20 + length lit \<le> cap \<longrightarrow>
           tsLoop char_signed cap junk data out hi modified =
             Inr (Stopped NoParen (out1 @ replacement (djb2 char_signed lit) lit)
                    (max hi (length out1 + 20 + length lit))))"
proof -
  have four: "length ''SID('' = 4" by simp
  have first: "tsLoop char_signed cap junk data out hi modified =
      Inr (Stopped NotAString out1 hi)"
    if q: "\<not> isspace q" "q \<noteq> dquote" "tail = q # rest"
  proof -
    have "tsInvocation char_signed cap junk (''SID('' @ ws @ tail) out1 hi =
        Inr (Aborted NotAString out1 hi)"
      unfolding q(3) using four ws q(1,2) by (rule tsInvocation_not_a_string)
    then show ?thesis
      by (simp add: tsLoop_found [OF found inside])
  qed
  have second: "tsLoop char_signed cap junk data out hi modified =
      Inr (Stopped NoParen (out1 @ replacement (djb2 char_signed lit) lit)
             (max hi (length out1 + 20 + length lit)))"
    if l: "literal_span lit" "NUL \<notin> set lit" "\<forall>c \<in> set ws2. isspace c" "\<not> isspace p"
      "p \<noteq> CHR '')''" "tail = dquote # lit @ dquote # ws2 @ p # rest"
      "length out1 + 20 + length lit \<le> cap"
  proof -
    have "tsInvocation char_signed cap junk (''SID('' @ ws @ tail) out1 hi =
        Inr (Aborted NoParen (out1 @ replacement (djb2 char_signed lit) lit)
               (max hi (length out1 + 20 + length lit)))"
      unfolding l(6)
      using tsInvocation_shape [OF four ws l(1) l(3) l(4), of char_signed cap junk rest out1 hi]
        l(5)
      by (simp add: tsFormat_no_NUL [OF l(2)] tsEmit_whole [OF _ l(7)] length_replacement)
    then show ?thesis
      by (simp add: tsLoop_found [OF found inside])
  qed
  from first second show ?thesis by blast
qed

text \<open>
  C7 fails on the code. In the 8-byte file \<open>SID("ok"\<close> the literal is complete, and
  the replacement is stored (line 203) before the closing parenthesis is looked for
  (line 209): its 21 characters and the NUL behind them, 22 bytes, go into a block
  of 16, before any diagnostic. It is the defect of C4. The file \<open>SID(nope)\<close> stops
  at the first check, before any store, with its diagnostic and no file written; so
  does the file \<open>int x = SID("ok";\<close> at the second check, where the block has room.
\<close>

theorem missing_parenthesis_overruns_output:
  "tsPreprocess char_signed junk writable
       [''a.c'' \<mapsto> ''SID('' @ dquote # ''ok'' @ [dquote]] ''a.c'' ''b.c'' =
     Inl (OutputOverrun 22 16)
   \<and> tsPreprocess char_signed junk writable [''a.c'' \<mapsto> ''SID(nope)''] ''a.c'' ''b.c'' =
     Inr \<lparr>returned = 0, files = [''a.c'' \<mapsto> ''SID(nope)''],
          printed = [OnlyStrings ''a.c''], stored = 0, capacity = 18\<rparr>
   \<and> tsPreprocess char_signed junk writable
       [''a.c'' \<mapsto> ''int x = SID('' @ dquote # ''ok'' @ dquote # '';''] ''a.c'' ''b.c'' =
     Inr \<lparr>returned = 0,
          files = [''a.c'' \<mapsto> ''int x = SID('' @ dquote # ''ok'' @ dquote # '';''],
          printed = [MustHaveParen ''a.c''], stored = 30, capacity = 34\<rparr>"
  by (simp add: ts_eval)

end
